theory Spec2Isabelle
  imports Complex_Main
begin

section \<open>JavaScript numbers\<close>

text \<open>
  The form screen computes with JavaScript numbers. A number is modelled as \<open>NaN\<close>, one of
  the two infinities, or a finite value, and every operator follows the ECMAScript rules for
  the special values. The arithmetic on finite values is given twice. In this section it is
  exact: a finite result is the real number itself. This reading is used where a property is
  about the structure of the computation, or is worded for exact arithmetic. In the next
  section every finite result is rounded to a double, as the language does; that reading is
  used where rounding, overflow or underflow decides a property. In both there is a single
  zero, so \<open>a / 0\<close> takes the sign of \<open>a\<close>: a negative zero can only come from a
  negative operand.
\<close>

datatype number = NaN | PosInf | NegInf | Fin real

fun isNaN :: "number \<Rightarrow> bool" where
  "isNaN NaN = True"
| "isNaN _ = False"

text \<open>\<open>a * b\<close>: infinity times zero is \<open>NaN\<close>.\<close>

fun num_mul :: "number \<Rightarrow> number \<Rightarrow> number" where
  "num_mul NaN _ = NaN"
| "num_mul _ NaN = NaN"
| "num_mul (Fin a) (Fin b) = Fin (a * b)"
| "num_mul (Fin a) PosInf = (if a = 0 then NaN else if 0 < a then PosInf else NegInf)"
| "num_mul (Fin a) NegInf = (if a = 0 then NaN else if 0 < a then NegInf else PosInf)"
| "num_mul PosInf (Fin b) = (if b = 0 then NaN else if 0 < b then PosInf else NegInf)"
| "num_mul NegInf (Fin b) = (if b = 0 then NaN else if 0 < b then NegInf else PosInf)"
| "num_mul PosInf PosInf = PosInf"
| "num_mul PosInf NegInf = NegInf"
| "num_mul NegInf PosInf = NegInf"
| "num_mul NegInf NegInf = PosInf"

text \<open>\<open>a / b\<close>: \<open>0 / 0\<close> and infinity over infinity are \<open>NaN\<close>.\<close>

fun num_div :: "number \<Rightarrow> number \<Rightarrow> number" where
  "num_div NaN _ = NaN"
| "num_div _ NaN = NaN"
| "num_div (Fin a) (Fin b) =
     (if b = 0 then (if a = 0 then NaN else if 0 < a then PosInf else NegInf)
      else Fin (a / b))"
| "num_div (Fin a) PosInf = Fin 0"
| "num_div (Fin a) NegInf = Fin 0"
| "num_div PosInf (Fin b) = (if 0 \<le> b then PosInf else NegInf)"
| "num_div NegInf (Fin b) = (if 0 \<le> b then NegInf else PosInf)"
| "num_div PosInf PosInf = NaN"
| "num_div PosInf NegInf = NaN"
| "num_div NegInf PosInf = NaN"
| "num_div NegInf NegInf = NaN"

text \<open>\<open>a + b\<close> and \<open>a - b\<close>: opposite infinities cancel to \<open>NaN\<close>.\<close>

fun num_add :: "number \<Rightarrow> number \<Rightarrow> number" where
  "num_add NaN _ = NaN"
| "num_add _ NaN = NaN"
| "num_add (Fin a) (Fin b) = Fin (a + b)"
| "num_add (Fin a) PosInf = PosInf"
| "num_add (Fin a) NegInf = NegInf"
| "num_add PosInf (Fin b) = PosInf"
| "num_add NegInf (Fin b) = NegInf"
| "num_add PosInf PosInf = PosInf"
| "num_add PosInf NegInf = NaN"
| "num_add NegInf PosInf = NaN"
| "num_add NegInf NegInf = NegInf"

fun num_neg :: "number \<Rightarrow> number" where
  "num_neg NaN = NaN"
| "num_neg PosInf = NegInf"
| "num_neg NegInf = PosInf"
| "num_neg (Fin a) = Fin (- a)"

definition num_sub :: "number \<Rightarrow> number \<Rightarrow> number" where
  "num_sub a b = num_add a (num_neg b)"

text \<open>\<open>a <= b\<close> and \<open>a < b\<close>: every comparison with \<open>NaN\<close> is false.\<close>

fun num_le :: "number \<Rightarrow> number \<Rightarrow> bool" where
  "num_le NaN _ = False"
| "num_le _ NaN = False"
| "num_le (Fin a) (Fin b) = (a \<le> b)"
| "num_le NegInf _ = True"
| "num_le _ PosInf = True"
| "num_le PosInf _ = False"
| "num_le (Fin a) NegInf = False"

fun num_lt :: "number \<Rightarrow> number \<Rightarrow> bool" where
  "num_lt NaN _ = False"
| "num_lt _ NaN = False"
| "num_lt (Fin a) (Fin b) = (a < b)"
| "num_lt PosInf _ = False"
| "num_lt _ NegInf = False"
| "num_lt NegInf _ = True"
| "num_lt (Fin a) PosInf = True"

text \<open>\<open>Math.ceil\<close> and \<open>Math.sqrt\<close>.\<close>

fun Math_ceil :: "number \<Rightarrow> number" where
  "Math_ceil (Fin a) = Fin (of_int \<lceil>a\<rceil>)"
| "Math_ceil v = v"

fun Math_sqrt :: "number \<Rightarrow> number" where
  "Math_sqrt (Fin a) = (if a < 0 then NaN else Fin (sqrt a))"
| "Math_sqrt PosInf = PosInf"
| "Math_sqrt _ = NaN"

section \<open>Rounding to a double\<close>

text \<open>
  A double (IEEE 754 binary64) has 53 significant bits and a binary exponent from \<open>-1022\<close>
  to \<open>1023\<close>; below \<open>2^-1022\<close> the doubles are the multiples of \<open>2^-1074\<close>. An
  operation returns the double nearest to the exact result, the one with an even last bit
  when two are equally near, and an infinity when that double would reach \<open>2^1024\<close>.

  \<open>round_even\<close> rounds a non-negative real to the nearest integer, ties to even;
  \<open>exponent a\<close> is the binary exponent of \<open>a\<close>, held at \<open>-1022\<close> below the normal range;
  \<open>ulp a\<close> is the distance between the doubles around \<open>a\<close>; \<open>fl x\<close> is the double, or
  the infinity, for the real \<open>x\<close>.
\<close>

definition round_even :: "real \<Rightarrow> int" where
  "round_even q =
     (let f = \<lfloor>q\<rfloor>; r = q - of_int f
      in if r < 1 / 2 then f else if 1 / 2 < r then f + 1 else if even f then f else f + 1)"

definition pow2 :: "int \<Rightarrow> real" where
  "pow2 k = 2 powr (of_int k)"

definition exponent :: "real \<Rightarrow> int" where
  "exponent a = (if a < pow2 (- 1022) then - 1022 else \<lfloor>log 2 a\<rfloor>)"

definition ulp :: "real \<Rightarrow> real" where
  "ulp a = pow2 (exponent a - 52)"

definition round_abs :: "real \<Rightarrow> real" where
  "round_abs a = of_int (round_even (a / ulp a)) * ulp a"

definition round_nearest :: "real \<Rightarrow> real" where
  "round_nearest x = sgn x * round_abs \<bar>x\<bar>"

definition fl :: "real \<Rightarrow> number" where
  "fl x =
     (let y = round_nearest x
      in if pow2 1024 \<le> \<bar>y\<bar> then (if 0 < y then PosInf else NegInf) else Fin y)"

text \<open>A real is a double when rounding leaves it unchanged.\<close>

definition is_double :: "real \<Rightarrow> bool" where
  "is_double x = (fl x = Fin x)"

text \<open>
  The operators in double arithmetic: the exact result, rounded. \<open>Math.sqrt\<close> is taken
  to be correctly rounded, as the square root of IEEE 754 is; \<open>Math.ceil\<close> and the
  comparisons are exact on doubles.
\<close>

fun rnd :: "number \<Rightarrow> number" where
  "rnd (Fin r) = fl r"
| "rnd v = v"

definition mul64 :: "number \<Rightarrow> number \<Rightarrow> number" where
  "mul64 a b = rnd (num_mul a b)"

definition div64 :: "number \<Rightarrow> number \<Rightarrow> number" where
  "div64 a b = rnd (num_div a b)"

definition add64 :: "number \<Rightarrow> number \<Rightarrow> number" where
  "add64 a b = rnd (num_add a b)"

definition sub64 :: "number \<Rightarrow> number \<Rightarrow> number" where
  "sub64 a b = rnd (num_sub a b)"

definition sqrt64 :: "number \<Rightarrow> number" where
  "sqrt64 a = rnd (Math_sqrt a)"

section \<open>The form screen\<close>

text \<open>
  \<open>FormScreen\<close> receives the measured \<open>dimensions\<close> as a route parameter and keeps four
  pieces of state: the two text fields, the computed number of lights (\<open>null\<close> until the
  first calculation) and the computed positions. The alerts shown so far are kept with the
  state, so that \<open>Alert.alert\<close> is a visible effect of the model.
\<close>

record dimensions =
  width :: number
  height :: number

record position =
  pos_x :: number
  pos_y :: number

record form_state =
  lumens :: string
  luxes :: string
  focusCount :: "number option"
  distances :: "position list option"
  alerts :: "(string \<times> string) list"

text \<open>\<open>const area = dimensions.width * dimensions.height\<close>.\<close>

definition area :: "dimensions \<Rightarrow> number" where
  "area dims = num_mul (width dims) (height dims)"

subsection \<open>\<open>handleCalculate\<close>\<close>

text \<open>
  The inner loop of \<open>handleCalculate\<close>,
  \<open>for (let col = 0; col < numCols; col++)\<close>, with its body. The loop variables are
  numbers, and a loop whose bound is \<open>Infinity\<close> does not return: the result is an option.
\<close>

partial_function (option) distances_cols ::
  "dimensions \<Rightarrow> number \<Rightarrow> number \<Rightarrow> number \<Rightarrow> number \<Rightarrow> number \<Rightarrow> number \<Rightarrow> number
     \<Rightarrow> position list \<Rightarrow> position list option"
where
  "distances_cols dims numCols spacingX spacingY edgeDistanceX edgeDistanceY row col
       calculatedDistances =
     (if num_lt col numCols then
        let x = num_add edgeDistanceX (num_mul col spacingX);
            y = num_add edgeDistanceY (num_mul row spacingY)
        in distances_cols dims numCols spacingX spacingY edgeDistanceX edgeDistanceY row
             (num_add col (Fin 1))
             (if num_le x (width dims) \<and> num_le y (height dims)
              then calculatedDistances @ [\<lparr>pos_x = x, pos_y = y\<rparr>]
              else calculatedDistances)
      else Some calculatedDistances)"

text \<open>The outer loop, \<open>for (let row = 0; row < numRows; row++)\<close>.\<close>

partial_function (option) distances_rows ::
  "dimensions \<Rightarrow> number \<Rightarrow> number \<Rightarrow> number \<Rightarrow> number \<Rightarrow> number \<Rightarrow> number \<Rightarrow> number
     \<Rightarrow> position list \<Rightarrow> position list option"
where
  "distances_rows dims numRows numCols spacingX spacingY edgeDistanceX edgeDistanceY row
       calculatedDistances =
     (if num_lt row numRows then
        Option.bind
          (distances_cols dims numCols spacingX spacingY edgeDistanceX edgeDistanceY row
             (Fin 0) calculatedDistances)
          (\<lambda>calculatedDistances'.
             distances_rows dims numRows numCols spacingX spacingY edgeDistanceX edgeDistanceY
               (num_add row (Fin 1)) calculatedDistances')
      else Some calculatedDistances)"

text \<open>
  The grid shape, computed the same way in \<open>handleCalculate\<close> and in \<open>renderFocusGrid\<close>:
  \<open>numCols = Math.ceil(Math.sqrt(numFoci))\<close> and \<open>numRows = Math.ceil(numFoci / numCols)\<close>.
\<close>

definition numCols :: "number \<Rightarrow> number" where
  "numCols numFoci = Math_ceil (Math_sqrt numFoci)"

definition numRows :: "number \<Rightarrow> number" where
  "numRows numFoci = Math_ceil (num_div numFoci (numCols numFoci))"

text \<open>
  The second half of \<open>handleCalculate\<close>: from the number of lights to the list of
  positions handed to \<open>setDistances\<close>.
\<close>

definition calculatedDistances :: "dimensions \<Rightarrow> number \<Rightarrow> position list option" where
  "calculatedDistances dims numFoci =
     (let spacingX = num_div (width dims) (numCols numFoci);
          spacingY = num_div (height dims) (numRows numFoci);
          edgeDistanceX = num_div spacingX (Fin 2);
          edgeDistanceY = num_div spacingY (Fin 2)
      in distances_rows dims (numRows numFoci) (numCols numFoci) spacingX spacingY
           edgeDistanceX edgeDistanceY (Fin 0) [])"

text \<open>
  The number of lights:
  \<open>requiredLumens = luxesValue * area\<close>, \<open>calculatedFocusCount = requiredLumens / lumensValue\<close>,
  \<open>numFoci = Math.ceil(calculatedFocusCount)\<close>.
\<close>

definition numFoci :: "dimensions \<Rightarrow> number \<Rightarrow> number \<Rightarrow> number" where
  "numFoci dims lumensValue luxesValue =
     (let requiredLumens = num_mul luxesValue (area dims);
          calculatedFocusCount = num_div requiredLumens lumensValue
      in Math_ceil calculatedFocusCount)"

text \<open>
  \<open>handleCalculate\<close> itself. \<open>parseFloat\<close> is the language's built-in and is a parameter
  of the model. A failed validation shows the alert and returns; otherwise both state
  setters run. The result is \<open>None\<close> when a loop does not return.
\<close>

definition invalid_values :: "number \<Rightarrow> number \<Rightarrow> bool" where
  "invalid_values lumensValue luxesValue =
     (isNaN lumensValue \<or> isNaN luxesValue \<or> num_le lumensValue (Fin 0)
        \<or> num_le luxesValue (Fin 0))"

definition error_alert :: "string \<times> string" where
  "error_alert = (''Error'', ''Please enter valid values for lumens and luxes.'')"

definition handleCalculate ::
  "(string \<Rightarrow> number) \<Rightarrow> dimensions \<Rightarrow> form_state \<Rightarrow> form_state option" where
  "handleCalculate parseFloat dims st =
     (let lumensValue = parseFloat (lumens st);
          luxesValue = parseFloat (luxes st)
      in if invalid_values lumensValue luxesValue
         then Some (st\<lparr>alerts := alerts st @ [error_alert]\<rparr>)
         else
           Option.bind (calculatedDistances dims (numFoci dims lumensValue luxesValue))
             (\<lambda>ds. Some (st\<lparr>focusCount := Some (numFoci dims lumensValue luxesValue),
                             distances := Some ds\<rparr>)))"

subsection \<open>\<open>handleCalculate\<close> in double arithmetic\<close>

text \<open>
  The same component with every arithmetic result rounded to a double. The loop counters
  are doubles too: \<open>col++\<close> is a rounded addition, exact up to \<open>2^53\<close>, where the
  counter stops advancing; a loop with a larger bound does not return.
\<close>

definition area64 :: "dimensions \<Rightarrow> number" where
  "area64 dims = mul64 (width dims) (height dims)"

definition numFoci64 :: "dimensions \<Rightarrow> number \<Rightarrow> number \<Rightarrow> number" where
  "numFoci64 dims lumensValue luxesValue =
     (let requiredLumens = mul64 luxesValue (area64 dims);
          calculatedFocusCount = div64 requiredLumens lumensValue
      in Math_ceil calculatedFocusCount)"

definition numCols64 :: "number \<Rightarrow> number" where
  "numCols64 nFoci = Math_ceil (sqrt64 nFoci)"

definition numRows64 :: "number \<Rightarrow> number" where
  "numRows64 nFoci = Math_ceil (div64 nFoci (numCols64 nFoci))"

partial_function (option) distances_cols64 ::
  "dimensions \<Rightarrow> number \<Rightarrow> number \<Rightarrow> number \<Rightarrow> number \<Rightarrow> number \<Rightarrow> number \<Rightarrow> number
     \<Rightarrow> position list \<Rightarrow> position list option"
where
  "distances_cols64 dims nCols spacingX spacingY edgeDistanceX edgeDistanceY row col
       calcDistances =
     (if num_lt col nCols then
        let x = add64 edgeDistanceX (mul64 col spacingX);
            y = add64 edgeDistanceY (mul64 row spacingY)
        in distances_cols64 dims nCols spacingX spacingY edgeDistanceX edgeDistanceY row
             (add64 col (Fin 1))
             (if num_le x (width dims) \<and> num_le y (height dims)
              then calcDistances @ [\<lparr>pos_x = x, pos_y = y\<rparr>]
              else calcDistances)
      else Some calcDistances)"

partial_function (option) distances_rows64 ::
  "dimensions \<Rightarrow> number \<Rightarrow> number \<Rightarrow> number \<Rightarrow> number \<Rightarrow> number \<Rightarrow> number \<Rightarrow> number
     \<Rightarrow> position list \<Rightarrow> position list option"
where
  "distances_rows64 dims nRows nCols spacingX spacingY edgeDistanceX edgeDistanceY row
       calcDistances =
     (if num_lt row nRows then
        Option.bind
          (distances_cols64 dims nCols spacingX spacingY edgeDistanceX edgeDistanceY row
             (Fin 0) calcDistances)
          (\<lambda>calcDistances'.
             distances_rows64 dims nRows nCols spacingX spacingY edgeDistanceX edgeDistanceY
               (add64 row (Fin 1)) calcDistances')
      else Some calcDistances)"

definition calculatedDistances64 :: "dimensions \<Rightarrow> number \<Rightarrow> position list option" where
  "calculatedDistances64 dims nFoci =
     (let spacingX = div64 (width dims) (numCols64 nFoci);
          spacingY = div64 (height dims) (numRows64 nFoci);
          edgeDistanceX = div64 spacingX (Fin 2);
          edgeDistanceY = div64 spacingY (Fin 2)
      in distances_rows64 dims (numRows64 nFoci) (numCols64 nFoci) spacingX spacingY
           edgeDistanceX edgeDistanceY (Fin 0) [])"

definition handleCalculate64 ::
  "(string \<Rightarrow> number) \<Rightarrow> dimensions \<Rightarrow> form_state \<Rightarrow> form_state option" where
  "handleCalculate64 parseFloat dims st =
     (let lumensValue = parseFloat (lumens st);
          luxesValue = parseFloat (luxes st)
      in if invalid_values lumensValue luxesValue
         then Some (st\<lparr>alerts := alerts st @ [error_alert]\<rparr>)
         else
           Option.bind (calculatedDistances64 dims (numFoci64 dims lumensValue luxesValue))
             (\<lambda>ds. Some (st\<lparr>focusCount := Some (numFoci64 dims lumensValue luxesValue),
                             distances := Some ds\<rparr>)))"

subsection \<open>\<open>renderFocusGrid\<close>\<close>

text \<open>
  \<open>renderFocusGrid\<close>, in double arithmetic, draws one dot per accepted cell inside a
  container scaled to the window. A dot is the \<open>View\<close> pushed on \<open>grid\<close>: its key (the
  row and column of the cell), its size and its offsets. The function returns \<open>null\<close> or
  the container with its dots.
\<close>

record dot =
  dot_key :: "number \<times> number"
  dot_width :: number
  dot_height :: number
  dot_left :: number
  dot_top :: number

datatype element = Null | GridContainer number number "dot list"

partial_function (option) grid_cols64 ::
  "number \<Rightarrow> number \<Rightarrow> number \<Rightarrow> number \<Rightarrow> number \<Rightarrow> number \<Rightarrow> number \<Rightarrow> number \<Rightarrow> number
     \<Rightarrow> number \<Rightarrow> dot list \<Rightarrow> dot list option"
where
  "grid_cols64 containerWidth containerHeight focusSize nCols spacingX spacingY edgeDistanceX
       edgeDistanceY row col grid =
     (if num_lt col nCols then
        let x = add64 edgeDistanceX (mul64 col spacingX);
            y = add64 edgeDistanceY (mul64 row spacingY)
        in grid_cols64 containerWidth containerHeight focusSize nCols spacingX spacingY
             edgeDistanceX edgeDistanceY row (add64 col (Fin 1))
             (if num_le x containerWidth \<and> num_le y containerHeight
              then grid @ [\<lparr>dot_key = (row, col), dot_width = focusSize,
                             dot_height = focusSize, dot_left = x, dot_top = y\<rparr>]
              else grid)
      else Some grid)"

partial_function (option) grid_rows64 ::
  "number \<Rightarrow> number \<Rightarrow> number \<Rightarrow> number \<Rightarrow> number \<Rightarrow> number \<Rightarrow> number \<Rightarrow> number \<Rightarrow> number
     \<Rightarrow> number \<Rightarrow> dot list \<Rightarrow> dot list option"
where
  "grid_rows64 containerWidth containerHeight focusSize nRows nCols spacingX spacingY
       edgeDistanceX edgeDistanceY row grid =
     (if num_lt row nRows then
        Option.bind
          (grid_cols64 containerWidth containerHeight focusSize nCols spacingX spacingY
             edgeDistanceX edgeDistanceY row (Fin 0) grid)
          (\<lambda>grid'.
             grid_rows64 containerWidth containerHeight focusSize nRows nCols spacingX spacingY
               edgeDistanceX edgeDistanceY (add64 row (Fin 1)) grid')
      else Some grid)"

text \<open>
  \<open>screenWidth\<close> is what \<open>Dimensions.get('window').width\<close> returns, a parameter of the
  model.
\<close>

definition renderFocusGrid64 :: "number \<Rightarrow> dimensions \<Rightarrow> number \<Rightarrow> element option" where
  "renderFocusGrid64 screenWidth dims nFoci =
     (if num_le nFoci (Fin 0) then Some Null
      else
        let aspectRatio = div64 (width dims) (height dims);
            containerWidth = sub64 screenWidth (Fin 40);
            containerHeight = div64 containerWidth aspectRatio;
            focusSize = Fin 20;
            spacingX = div64 containerWidth (numCols64 nFoci);
            spacingY = div64 containerHeight (numRows64 nFoci);
            edgeDistanceX = div64 spacingX (Fin 2);
            edgeDistanceY = div64 spacingY (Fin 2)
        in map_option (GridContainer containerWidth containerHeight)
             (grid_rows64 containerWidth containerHeight focusSize (numRows64 nFoci)
                (numCols64 nFoci) spacingX spacingY edgeDistanceX edgeDistanceY (Fin 0) []))"

section \<open>The layout as the specification words it\<close>

text \<open>
  The specification describes the grid over a positive real width and height and a count
  \<open>n \<ge> 1\<close>: \<open>numCols = ceil(sqrt(n))\<close>, \<open>numRows = ceil(n / numCols)\<close>, the centre of
  cell \<open>(row, col)\<close> at \<open>(edgeX + col * spacingX, edgeY + row * spacingY)\<close>, rows outer and
  columns inner, a centre kept only if it lies within the width and the height.
\<close>

definition shape_cols :: "nat \<Rightarrow> nat" where
  "shape_cols n = nat \<lceil>sqrt (real n)\<rceil>"

definition shape_rows :: "nat \<Rightarrow> nat" where
  "shape_rows n = nat \<lceil>real n / real (shape_cols n)\<rceil>"

definition spec_cell :: "real \<Rightarrow> real \<Rightarrow> nat \<Rightarrow> nat \<Rightarrow> nat \<Rightarrow> nat \<Rightarrow> position" where
  "spec_cell w h nc nr row col =
     (let spacingX = w / real nc;
          spacingY = h / real nr;
          edgeX = spacingX / 2;
          edgeY = spacingY / 2
      in \<lparr>pos_x = Fin (edgeX + real col * spacingX), pos_y = Fin (edgeY + real row * spacingY)\<rparr>)"

definition spec_positions :: "real \<Rightarrow> real \<Rightarrow> nat \<Rightarrow> position list" where
  "spec_positions w h n =
     filter (\<lambda>p. num_le (pos_x p) (Fin w) \<and> num_le (pos_y p) (Fin h))
       (concat (map (\<lambda>row. map (\<lambda>col. spec_cell w h (shape_cols n) (shape_rows n) row col)
                               [0..<shape_cols n])
                    [0..<shape_rows n]))"


subsection \<open>Names for the loop bodies\<close>

text \<open>
  The inclusion test and the cell of the two loops of \<open>handleCalculate\<close>, named so that
  the loops can be described by \<open>filter\<close> and \<open>map\<close>; the same for the loops of
  \<open>renderFocusGrid\<close>, and for the cells in double arithmetic.
\<close>

definition accepted :: "dimensions \<Rightarrow> position \<Rightarrow> bool" where
  "accepted dims p = (num_le (pos_x p) (width dims) \<and> num_le (pos_y p) (height dims))"

definition cell :: "number \<Rightarrow> number \<Rightarrow> number \<Rightarrow> number \<Rightarrow> number \<Rightarrow> number \<Rightarrow> position" where
  "cell sX sY eX eY row col =
     \<lparr>pos_x = num_add eX (num_mul col sX), pos_y = num_add eY (num_mul row sY)\<rparr>"

definition dot_accepted :: "number \<Rightarrow> number \<Rightarrow> dot \<Rightarrow> bool" where
  "dot_accepted cw ch d = (num_le (dot_left d) cw \<and> num_le (dot_top d) ch)"

definition cell64 :: "number \<Rightarrow> number \<Rightarrow> number \<Rightarrow> number \<Rightarrow> number \<Rightarrow> number \<Rightarrow> position" where
  "cell64 sX sY eX eY row col =
     \<lparr>pos_x = add64 eX (mul64 col sX), pos_y = add64 eY (mul64 row sY)\<rparr>"

definition dot_cell64 ::
  "number \<Rightarrow> number \<Rightarrow> number \<Rightarrow> number \<Rightarrow> number \<Rightarrow> number \<Rightarrow> number \<Rightarrow> dot" where
  "dot_cell64 fs sX sY eX eY row col =
     \<lparr>dot_key = (row, col), dot_width = fs, dot_height = fs,
      dot_left = add64 eX (mul64 col sX), dot_top = add64 eY (mul64 row sY)\<rparr>"

subsection \<open>Example inputs\<close>

text \<open>
  A table standing for \<open>parseFloat\<close> on the strings used in the examples below; every other
  string is taken as unparsable.
\<close>

definition example_parseFloat :: "string \<Rightarrow> number" where
  "example_parseFloat s =
     (if s = ''900'' then Fin 900 else if s = ''300'' then Fin 300
      else if s = ''1000'' then Fin 1000 else if s = ''200'' then Fin 200
      else if s = ''50'' then Fin 50 else if s = ''100'' then Fin 100
      else if s = ''-1'' then Fin (- 1) else NaN)"

definition example_state :: "string \<Rightarrow> string \<Rightarrow> form_state" where
  "example_state lum lux =
     \<lparr>lumens = lum, luxes = lux, focusCount = None, distances = None, alerts = []\<rparr>"

section \<open>The loops return\<close>

lemma distances_cols_fin:
  "k \<le> c \<Longrightarrow>
   distances_cols dims (Fin (real c)) sX sY eX eY row (Fin (real k)) acc =
     Some (acc @ filter (accepted dims)
                   (map (\<lambda>col. cell sX sY eX eY row (Fin (real col))) [k..<c]))"
proof (induction "c - k" arbitrary: k acc)
  case 0
  then have "k = c" by simp
  then show ?case by (subst distances_cols.simps) simp
next
  case (Suc d)
  then have lt: "k < c" and d: "d = c - Suc k" and le: "Suc k \<le> c" by simp_all
  have step: "real k + 1 = real (Suc k)" by simp
  show ?case
    apply (subst distances_cols.simps)
    using lt Suc.hyps(1) [OF d le]
    apply (simp add: step Let_def upt_conv_Cons accepted_def cell_def del: of_nat_Suc)
    done
qed

lemma distances_rows_fin:
  "k \<le> r \<Longrightarrow>
   distances_rows dims (Fin (real r)) (Fin (real c)) sX sY eX eY (Fin (real k)) acc =
     Some (acc @ concat (map (\<lambda>row. filter (accepted dims)
        (map (\<lambda>col. cell sX sY eX eY (Fin (real row)) (Fin (real col))) [0..<c])) [k..<r]))"
proof (induction "r - k" arbitrary: k acc)
  case 0
  then have "k = r" by simp
  then show ?case by (subst distances_rows.simps) simp
next
  case (Suc d)
  then have lt: "k < r" and d: "d = r - Suc k" and le: "Suc k \<le> r" by simp_all
  have step: "real k + 1 = real (Suc k)" by simp
  show ?case
    apply (subst distances_rows.simps)
    using lt Suc.hyps(1) [OF d le]
      distances_cols_fin [of 0 c dims sX sY eX eY "Fin (real k)" acc]
    apply (simp add: step upt_conv_Cons del: of_nat_Suc)
    done
qed

lemma distances_rows_exit:
  "\<not> num_lt row nr \<Longrightarrow> distances_rows dims nr nc sX sY eX eY row acc = Some acc"
  by (subst distances_rows.simps) simp

section \<open>The grid shape\<close>

lemma shape_cols_real: "real (shape_cols n) = of_int \<lceil>sqrt (real n)\<rceil>"
proof -
  have "0 \<le> sqrt (real n)" by simp
  then have "0 \<le> \<lceil>sqrt (real n)\<rceil>" by linarith
  then show ?thesis by (simp add: shape_cols_def)
qed

lemma shape_rows_real: "real (shape_rows n) = of_int \<lceil>real n / real (shape_cols n)\<rceil>"
proof -
  have "0 \<le> real n / real (shape_cols n)" by simp
  then have "0 \<le> \<lceil>real n / real (shape_cols n)\<rceil>" by linarith
  then show ?thesis by (simp add: shape_rows_def)
qed

lemma shape_cols_upper: "n \<le> shape_cols n * shape_cols n"
proof -
  have "sqrt (real n) \<le> real (shape_cols n)" by (simp add: shape_cols_real)
  then have "sqrt (real n) * sqrt (real n) \<le> real (shape_cols n) * real (shape_cols n)"
    by (intro mult_mono) simp_all
  then have "real n \<le> real (shape_cols n * shape_cols n)" by simp
  then show ?thesis by (simp only: of_nat_le_iff)
qed

lemma shape_cols_pos: "1 \<le> n \<Longrightarrow> 1 \<le> shape_cols n"
  using shape_cols_upper [of n] by (cases "shape_cols n") simp_all

lemma shape_cols_lower: "1 \<le> n \<Longrightarrow> (shape_cols n - 1) * (shape_cols n - 1) < n"
proof -
  assume n: "1 \<le> n"
  have "real (shape_cols n) - 1 < sqrt (real n)" by (simp add: shape_cols_real) linarith
  then have lt: "real (shape_cols n - 1) < sqrt (real n)"
    using shape_cols_pos [OF n] by (simp add: of_nat_diff)
  have "real (shape_cols n - 1) * real (shape_cols n - 1) < sqrt (real n) * sqrt (real n)"
    using lt by (intro mult_strict_mono') simp_all
  then have "real ((shape_cols n - 1) * (shape_cols n - 1)) < real n" by simp
  then show ?thesis by (simp only: of_nat_less_iff)
qed

lemma shape_rows_upper: "1 \<le> n \<Longrightarrow> n \<le> shape_rows n * shape_cols n"
proof -
  assume n: "1 \<le> n"
  then have c: "0 < real (shape_cols n)" using shape_cols_pos [of n] by simp
  have "real n / real (shape_cols n) \<le> real (shape_rows n)" by (simp add: shape_rows_real)
  then have "real n \<le> real (shape_rows n) * real (shape_cols n)"
    using c by (simp add: pos_divide_le_eq)
  then have "real n \<le> real (shape_rows n * shape_cols n)" by simp
  then show ?thesis by (simp only: of_nat_le_iff)
qed

lemma shape_rows_pos: "1 \<le> n \<Longrightarrow> 1 \<le> shape_rows n"
  using shape_rows_upper [of n] by (cases "shape_rows n") simp_all

lemma shape_rows_lower: "1 \<le> n \<Longrightarrow> (shape_rows n - 1) * shape_cols n < n"
proof -
  assume n: "1 \<le> n"
  then have c: "0 < real (shape_cols n)" using shape_cols_pos [of n] by simp
  have "real (shape_rows n) - 1 < real n / real (shape_cols n)"
    by (simp add: shape_rows_real) linarith
  then have "real (shape_rows n - 1) < real n / real (shape_cols n)"
    using shape_rows_pos [OF n] by (simp add: of_nat_diff)
  then have "real (shape_rows n - 1) * real (shape_cols n) < real n"
    using c by (simp add: pos_less_divide_eq)
  then have "real ((shape_rows n - 1) * shape_cols n) < real n" by simp
  then show ?thesis by (simp only: of_nat_less_iff)
qed

lemma shape_rows_le_cols: "1 \<le> n \<Longrightarrow> shape_rows n \<le> shape_cols n"
proof -
  assume n: "1 \<le> n"
  then have c: "0 < real (shape_cols n)" using shape_cols_pos [of n] by simp
  have "real n \<le> real (shape_cols n) * real (shape_cols n)"
    using shape_cols_upper [of n] by (simp only: of_nat_mult [symmetric] of_nat_le_iff)
  then have "real n / real (shape_cols n) \<le> real (shape_cols n)"
    using c by (simp add: pos_divide_le_eq)
  then show ?thesis by (simp add: shape_rows_def)
qed

lemma shape_no_redundant_column:
  assumes n: "1 \<le> n"
  shows "(shape_cols n - 1) * shape_rows n < n"
proof (cases "shape_rows n = shape_cols n")
  case True
  then show ?thesis using shape_rows_lower [OF n] by (simp add: mult.commute)
next
  case False
  then have "shape_rows n \<le> shape_cols n - 1" using shape_rows_le_cols [OF n] by simp
  then have "(shape_cols n - 1) * shape_rows n \<le> (shape_cols n - 1) * (shape_cols n - 1)"
    by (rule mult_le_mono2)
  then show ?thesis using shape_cols_lower [OF n] by (rule le_less_trans)
qed

text \<open>The shape is determined by the two squares that enclose the count.\<close>

lemma shape_cols_eqI:
  assumes lo: "(c - 1) * (c - 1) < n" and hi: "n \<le> c * c" and c: "1 \<le> c"
  shows "shape_cols n = c"
proof -
  have "real n \<le> real c * real c"
    using hi by (simp only: of_nat_mult [symmetric] of_nat_le_iff)
  then have "real n \<le> (real c)\<^sup>2" by (simp add: power2_eq_square)
  then have up: "sqrt (real n) \<le> real c" by (intro real_le_lsqrt) simp_all
  have "real (c - 1) * real (c - 1) < real n"
    using lo by (simp only: of_nat_mult [symmetric] of_nat_less_iff)
  then have "(real (c - 1))\<^sup>2 < real n" by (simp add: power2_eq_square)
  then have "real (c - 1) < sqrt (real n)" by (intro real_less_rsqrt)
  then have low: "real c - 1 < sqrt (real n)" using c by (simp add: of_nat_diff)
  have "\<lceil>sqrt (real n)\<rceil> = int c"
    using up low by (intro ceiling_unique) simp_all
  then show ?thesis by (simp add: shape_cols_def)
qed

lemma numCols_nat: "numCols (Fin (real n)) = Fin (real (shape_cols n))"
  by (simp add: numCols_def shape_cols_real)

lemma numRows_nat: "1 \<le> n \<Longrightarrow> numRows (Fin (real n)) = Fin (real (shape_rows n))"
  using shape_cols_pos [of n] by (simp add: numRows_def numCols_nat shape_rows_real)

section \<open>Cell centres\<close>

lemma center_bounds:
  assumes d: "0 < d" and k: "k < m"
  shows "0 < d / real m / 2 + real k * (d / real m)"
    and "d / real m / 2 + real k * (d / real m) < d"
proof -
  have m: "0 < real m" using k by simp
  then have q: "0 < d / real m" using d by simp
  have eq: "d / real m / 2 + real k * (d / real m) = (d / real m) * (real k + 1 / 2)"
    by (simp add: algebra_simps)
  have "0 < (d / real m) * (real k + 1 / 2)" using q by (intro mult_pos_pos) simp_all
  then show "0 < d / real m / 2 + real k * (d / real m)" by (simp only: eq)
  have "Suc k \<le> m" using k by simp
  then have "real (Suc k) \<le> real m" by (simp only: of_nat_le_iff)
  then have "real k + 1 / 2 < real m" by simp
  then have "(d / real m) * (real k + 1 / 2) < (d / real m) * real m"
    using q by (simp only: mult_less_cancel_left_pos)
  also have "\<dots> = d" using m by simp
  finally show "d / real m / 2 + real k * (d / real m) < d" by (simp only: eq)
qed

lemma cell_fin:
  "0 < nc \<Longrightarrow> 0 < nr \<Longrightarrow>
   cell (num_div (Fin w) (Fin (real nc))) (num_div (Fin h) (Fin (real nr)))
        (num_div (num_div (Fin w) (Fin (real nc))) (Fin 2))
        (num_div (num_div (Fin h) (Fin (real nr))) (Fin 2))
        (Fin (real row)) (Fin (real col)) = spec_cell w h nc nr row col"
  by (simp add: cell_def spec_cell_def)

lemma calculatedDistances_spec:
  assumes w: "0 < w" and h: "0 < h" and n: "1 \<le> n"
  shows "calculatedDistances \<lparr>width = Fin w, height = Fin h\<rparr> (Fin (real n)) =
           Some (spec_positions w h n)"
proof -
  have c: "0 < shape_cols n" and r: "0 < shape_rows n"
    using shape_cols_pos [OF n] shape_rows_pos [OF n] by simp_all
  have zero: "Fin 0 = Fin (real 0)" by simp
  show ?thesis
    unfolding calculatedDistances_def Let_def numCols_nat numRows_nat [OF n]
    apply (subst zero)
    apply (subst distances_rows_fin)
     apply simp
    apply (simp only: cell_fin [OF c r] spec_positions_def filter_concat map_map comp_def
        accepted_def [abs_def] dimensions.simps append_Nil)
    done
qed

lemma spec_cell_inside:
  assumes w: "0 < w" and h: "0 < h" and row: "row < nr" and col: "col < nc"
  shows "num_le (pos_x (spec_cell w h nc nr row col)) (Fin w)"
    and "num_le (pos_y (spec_cell w h nc nr row col)) (Fin h)"
  using center_bounds(2) [OF w col] center_bounds(2) [OF h row]
  by (simp_all only: spec_cell_def Let_def position.simps num_le.simps less_imp_le)

lemma spec_positions_all:
  assumes w: "0 < w" and h: "0 < h"
  shows "spec_positions w h n =
           concat (map (\<lambda>row. map (\<lambda>col. spec_cell w h (shape_cols n) (shape_rows n) row col)
                               [0..<shape_cols n])
                    [0..<shape_rows n])"
  unfolding spec_positions_def
  by (rule filter_True) (auto simp: spec_cell_inside [OF w h])

lemma length_spec_positions:
  assumes w: "0 < w" and h: "0 < h"
  shows "length (spec_positions w h n) = shape_rows n * shape_cols n"
  by (simp add: spec_positions_all [OF assms] length_concat comp_def sum_list_triv)

section \<open>A valid calculation\<close>





lemma handleCalculate_invalid:
  assumes "invalid_values (parseFloat (lumens st)) (parseFloat (luxes st))"
  shows "handleCalculate parseFloat dims st = Some (st\<lparr>alerts := alerts st @ [error_alert]\<rparr>)"
  using assms by (simp add: handleCalculate_def)

section \<open>Rounding: monotone, and exact on doubles\<close>

lemma round_even_int: "round_even (of_int m) = m"
  by (simp add: round_even_def)

lemma round_even_bounds: "\<lfloor>q\<rfloor> \<le> round_even q" "round_even q \<le> \<lfloor>q\<rfloor> + 1"
  by (simp_all add: round_even_def Let_def)

lemma round_even_mono:
  assumes "q \<le> q'"
  shows "round_even q \<le> round_even q'"
proof (cases "\<lfloor>q\<rfloor> = \<lfloor>q'\<rfloor>")
  case True
  then show ?thesis using assms by (auto simp: round_even_def Let_def)
next
  case False
  then have "\<lfloor>q\<rfloor> + 1 \<le> \<lfloor>q'\<rfloor>" using floor_mono [OF assms] by simp
  then show ?thesis using round_even_bounds(2) [of q] round_even_bounds(1) [of q'] by linarith
qed

lemma round_even_near: "\<bar>of_int (round_even q) - q\<bar> \<le> 1 / 2"
  unfolding round_even_def Let_def by (auto simp: abs_if) linarith+

lemma round_even_le: "q \<le> of_int m \<Longrightarrow> round_even q \<le> m"
  using round_even_mono [of q "of_int m"] by (simp add: round_even_int)

lemma round_even_ge: "of_int m \<le> q \<Longrightarrow> m \<le> round_even q"
  using round_even_mono [of "of_int m" q] by (simp add: round_even_int)

lemma round_even_down: "of_int m \<le> q \<Longrightarrow> q < of_int m + 1 / 2 \<Longrightarrow> round_even q = m"
proof -
  assume a: "of_int m \<le> q" and b: "q < of_int m + 1 / 2"
  then have "\<lfloor>q\<rfloor> = m" by linarith
  then show ?thesis using b by (simp add: round_even_def Let_def)
qed

lemma pow2_pos: "0 < pow2 k"
  by (simp add: pow2_def)

lemma pow2_add: "pow2 (a + b) = pow2 a * pow2 b"
  by (simp add: pow2_def powr_add)

lemma pow2_mono: "a \<le> b \<Longrightarrow> pow2 a \<le> pow2 b"
  by (simp add: pow2_def)

lemma pow2_nat: "pow2 (int n) = 2 ^ n"
  by (simp add: pow2_def powr_realpow)

lemma pow2_neg: "pow2 (- int n) = 1 / 2 ^ n"
  by (simp add: pow2_def powr_minus powr_realpow field_simps)

lemma pow2_of_int: "pow2 (int n) = of_int (2 ^ n)"
  by (simp add: pow2_nat)

lemma floor_log_pow2: "0 < a \<Longrightarrow> \<lfloor>log 2 a\<rfloor> = k \<longleftrightarrow> pow2 k \<le> a \<and> a < pow2 (k + 1)"
  using floor_log_eq_powr_iff [of a 2 k] by (simp add: pow2_def)

lemma exponent_ge: "- 1022 \<le> exponent a"
proof (cases "a < pow2 (- 1022)")
  case True
  then show ?thesis by (simp add: exponent_def)
next
  case False
  then have a: "pow2 (- 1022) \<le> a" by simp
  then have pos: "0 < a" using pow2_pos [of "- 1022"] by linarith
  have "\<not> \<lfloor>log 2 a\<rfloor> < - 1022"
  proof
    assume "\<lfloor>log 2 a\<rfloor> < - 1022"
    then have "\<lfloor>log 2 a\<rfloor> + 1 \<le> - 1022" by linarith
    then have "pow2 (\<lfloor>log 2 a\<rfloor> + 1) \<le> pow2 (- 1022)" by (rule pow2_mono)
    moreover have "a < pow2 (\<lfloor>log 2 a\<rfloor> + 1)" using floor_log_pow2 [OF pos] by blast
    ultimately show False using a by linarith
  qed
  then show ?thesis using False by (simp add: exponent_def)
qed

lemma exponent_upper: "a < pow2 (exponent a + 1)"
proof (cases "a < pow2 (- 1022)")
  case True
  have "pow2 (- 1022) \<le> pow2 (- 1022 + 1)" by (rule pow2_mono) simp
  then show ?thesis using True by (simp add: exponent_def)
next
  case False
  then have a: "pow2 (- 1022) \<le> a" by simp
  then have pos: "0 < a" using pow2_pos [of "- 1022"] by linarith
  have "a < pow2 (\<lfloor>log 2 a\<rfloor> + 1)" using floor_log_pow2 [OF pos] by blast
  then show ?thesis using False by (simp add: exponent_def)
qed

lemma exponent_lower: "pow2 (- 1022) \<le> a \<Longrightarrow> pow2 (exponent a) \<le> a"
proof -
  assume a: "pow2 (- 1022) \<le> a"
  then have pos: "0 < a" using pow2_pos [of "- 1022"] by linarith
  have "pow2 \<lfloor>log 2 a\<rfloor> \<le> a" using floor_log_pow2 [OF pos] by blast
  then show ?thesis using a by (simp add: exponent_def)
qed

lemma exponent_eqI:
  assumes "pow2 e \<le> a" and "a < pow2 (e + 1)" and "- 1022 \<le> e"
  shows "exponent a = e"
proof -
  have "pow2 (- 1022) \<le> pow2 e" using assms(3) by (rule pow2_mono)
  then have a: "pow2 (- 1022) \<le> a" using assms(1) by linarith
  then have pos: "0 < a" using pow2_pos [of "- 1022"] by linarith
  have "\<lfloor>log 2 a\<rfloor> = e" using floor_log_pow2 [OF pos] assms(1,2) by blast
  then show ?thesis using a by (simp add: exponent_def)
qed

lemma exponent_subnormal: "a < pow2 (- 1022) \<Longrightarrow> exponent a = - 1022"
  by (simp add: exponent_def)

lemma exponent_mono:
  assumes "a \<le> b"
  shows "exponent a \<le> exponent b"
proof (cases "a < pow2 (- 1022)")
  case True
  then show ?thesis using exponent_ge [of b] by (simp add: exponent_def)
next
  case False
  then have a: "pow2 (- 1022) \<le> a" by simp
  then have pos: "0 < a" using pow2_pos [of "- 1022"] by linarith
  have "log 2 a \<le> log 2 b" using pos assms by simp
  then have "\<lfloor>log 2 a\<rfloor> \<le> \<lfloor>log 2 b\<rfloor>" by (rule floor_mono)
  then show ?thesis using a assms by (simp add: exponent_def)
qed

lemma ulp_pos: "0 < ulp a"
  by (simp add: ulp_def pow2_pos)

lemma ulp_times53: "pow2 53 * ulp a = pow2 (exponent a + 1)"
  by (simp add: ulp_def pow2_add [symmetric] add.commute)

lemma ulp_times52: "pow2 52 * ulp a = pow2 (exponent a)"
  by (simp add: ulp_def pow2_add [symmetric])

lemma quotient_upper: "a / ulp a < pow2 53"
  using exponent_upper [of a] ulp_pos [of a]
  by (simp only: pos_divide_less_eq ulp_times53)

lemma quotient_lower: "pow2 (- 1022) \<le> a \<Longrightarrow> pow2 52 \<le> a / ulp a"
  using exponent_lower [of a] ulp_pos [of a]
  by (simp only: pos_le_divide_eq ulp_times52)

lemma round_abs_nonneg: "0 \<le> a \<Longrightarrow> 0 \<le> round_abs a"
proof -
  assume "0 \<le> a"
  then have "0 \<le> a / ulp a" using ulp_pos [of a] by simp
  then have "0 \<le> round_even (a / ulp a)" using round_even_ge [of 0] by simp
  then show ?thesis using ulp_pos [of a] by (simp add: round_abs_def)
qed

lemma round_abs_upper: "round_abs a \<le> pow2 (exponent a + 1)"
proof -
  have "a / ulp a \<le> of_int (2 ^ 53)"
    using quotient_upper [of a] pow2_of_int [of 53] by simp
  then have "round_even (a / ulp a) \<le> 2 ^ 53" by (rule round_even_le)
  then have "real_of_int (round_even (a / ulp a)) \<le> of_int (2 ^ 53)" by (simp only: of_int_le_iff)
  then have "real_of_int (round_even (a / ulp a)) \<le> pow2 53"
    using pow2_of_int [of 53] by simp
  then have "round_abs a \<le> pow2 53 * ulp a"
    unfolding round_abs_def using ulp_pos [of a] by (intro mult_right_mono) simp_all
  then show ?thesis by (simp only: ulp_times53)
qed

lemma round_abs_lower: "pow2 (- 1022) \<le> a \<Longrightarrow> pow2 (exponent a) \<le> round_abs a"
proof -
  assume a: "pow2 (- 1022) \<le> a"
  have "of_int (2 ^ 52) \<le> a / ulp a"
    using quotient_lower [OF a] pow2_of_int [of 52] by simp
  then have "2 ^ 52 \<le> round_even (a / ulp a)" by (rule round_even_ge)
  then have "of_int (2 ^ 52) \<le> real_of_int (round_even (a / ulp a))" by (simp only: of_int_le_iff)
  then have "pow2 52 \<le> real_of_int (round_even (a / ulp a))"
    using pow2_of_int [of 52] by simp
  then have "pow2 52 * ulp a \<le> round_abs a"
    unfolding round_abs_def using ulp_pos [of a] by (intro mult_right_mono) simp_all
  then show ?thesis by (simp only: ulp_times52)
qed

lemma round_abs_mono:
  assumes "a \<le> b"
  shows "round_abs a \<le> round_abs b"
proof (cases "exponent a = exponent b")
  case True
  then have u: "ulp a = ulp b" by (simp add: ulp_def)
  have "a / ulp b \<le> b / ulp b" using assms ulp_pos [of b] by (simp add: divide_right_mono)
  then have "round_even (a / ulp b) \<le> round_even (b / ulp b)" by (rule round_even_mono)
  then show ?thesis using ulp_pos [of b] by (simp add: round_abs_def u)
next
  case False
  then have lt: "exponent a + 1 \<le> exponent b" using exponent_mono [OF assms] by simp
  then have "- 1022 < exponent b" using exponent_ge [of a] by simp
  then have "\<not> b < pow2 (- 1022)" by (auto simp: exponent_def)
  then have b: "pow2 (- 1022) \<le> b" by simp
  have "round_abs a \<le> pow2 (exponent a + 1)" by (rule round_abs_upper)
  also have "\<dots> \<le> pow2 (exponent b)" using lt by (rule pow2_mono)
  also have "\<dots> \<le> round_abs b" using b by (rule round_abs_lower)
  finally show ?thesis .
qed

lemma pow2_diff: "pow2 a / pow2 b = pow2 (a - b)"
  using pow2_add [of "a - b" b] pow2_pos [of b] by (simp add: field_simps)

lemma pow2_less_cancel: "pow2 a < pow2 b \<Longrightarrow> a < b"
  using pow2_mono [of b a] by (cases "a < b") simp_all

lemma pow2_numeral: "pow2 (numeral n) = 2 ^ numeral n"
  using pow2_nat [of "numeral n"] by simp

lemma round_abs_zero: "round_abs 0 = 0"
  by (simp add: round_abs_def round_even_def)

lemma round_abs_exact:
  assumes a: "a = of_int m * pow2 p" and m0: "0 \<le> m" and m: "m < 2 ^ 53" and p: "- 1074 \<le> p"
  shows "round_abs a = a"
proof (cases "m = 0")
  case True
  then show ?thesis using a by (simp add: round_abs_zero)
next
  case False
  then have mpos: "0 < m" using m0 by simp
  have le: "exponent a \<le> p + 52"
  proof (cases "a < pow2 (- 1022)")
    case True
    then show ?thesis using p by (simp add: exponent_subnormal)
  next
    case False
    then have "pow2 (exponent a) \<le> a" using exponent_lower [of a] by simp
    moreover have "real_of_int m < of_int (2 ^ 53)" using m by (simp only: of_int_less_iff)
    then have "real_of_int m < pow2 53" by (simp add: pow2_numeral)
    then have "a < pow2 53 * pow2 p"
      unfolding a using pow2_pos [of p] by (intro mult_strict_right_mono)
    ultimately have "pow2 (exponent a) < pow2 (53 + p)" by (simp add: pow2_add)
    then have "exponent a < 53 + p" by (rule pow2_less_cancel)
    then show ?thesis by simp
  qed
  define n where "n = nat (p + 52 - exponent a)"
  have n: "int n = p - (exponent a - 52)" using le by (simp add: n_def)
  have "a / ulp a = of_int m * (pow2 p / pow2 (exponent a - 52))"
    by (simp add: a ulp_def)
  also have "\<dots> = of_int m * pow2 (int n)" by (simp only: pow2_diff n)
  also have "\<dots> = of_int (m * 2 ^ n)" by (simp add: pow2_nat)
  finally have q: "a / ulp a = of_int (m * 2 ^ n)" .
  have "round_abs a = a / ulp a * ulp a"
    unfolding round_abs_def by (simp only: q round_even_int)
  then show ?thesis using ulp_pos [of a] by simp
qed

lemma round_nearest_mono:
  assumes "x \<le> y"
  shows "round_nearest x \<le> round_nearest y"
proof -
  consider "0 \<le> x" | "y \<le> 0" | "x < 0" "0 < y" by linarith
  then show ?thesis
  proof cases
    case 1
    then have "round_abs \<bar>x\<bar> \<le> round_abs \<bar>y\<bar>" using assms by (intro round_abs_mono) simp
    moreover have "0 \<le> round_abs \<bar>y\<bar>" by (rule round_abs_nonneg) simp
    ultimately show ?thesis using 1 assms by (simp add: round_nearest_def sgn_if)
  next
    case 2
    then have "round_abs \<bar>y\<bar> \<le> round_abs \<bar>x\<bar>" using assms by (intro round_abs_mono) simp
    moreover have "0 \<le> round_abs \<bar>x\<bar>" by (rule round_abs_nonneg) simp
    ultimately show ?thesis using 2 assms by (simp add: round_nearest_def sgn_if)
  next
    case 3
    have "0 \<le> round_abs \<bar>x\<bar>" "0 \<le> round_abs \<bar>y\<bar>" by (rule round_abs_nonneg, simp)+
    then show ?thesis using 3 by (simp add: round_nearest_def sgn_if)
  qed
qed

lemma fl_mono:
  assumes "x \<le> y"
  shows "num_le (fl x) (fl y)"
  using round_nearest_mono [OF assms]
  by (auto simp: fl_def Let_def abs_if split: if_splits)

lemma fl_exact:
  assumes y: "y = of_int m * pow2 p" and m: "\<bar>m\<bar> < 2 ^ 53" and p: "- 1074 \<le> p"
    and bound: "\<bar>y\<bar> < pow2 1024"
  shows "fl y = Fin y"
proof -
  have "\<bar>y\<bar> = of_int \<bar>m\<bar> * pow2 p" using pow2_pos [of p] by (simp add: y abs_mult)
  then have "round_abs \<bar>y\<bar> = \<bar>y\<bar>" using m p by (intro round_abs_exact [of _ "\<bar>m\<bar>" p]) simp_all
  then have "round_nearest y = y" by (simp add: round_nearest_def sgn_if)
  then show ?thesis using bound by (simp add: fl_def)
qed

lemma fl_int: "\<bar>k\<bar> \<le> 2 ^ 53 \<Longrightarrow> fl (of_int k) = Fin (of_int k)"
proof (cases "\<bar>k\<bar> = 2 ^ 53")
  case True
  assume "\<bar>k\<bar> \<le> 2 ^ 53"
  have "even k" using True by (metis even_abs_add_iff even_add even_numeral even_power zero_less_numeral)
  then obtain j where j: "k = 2 * j" by (elim evenE)
  then have "\<bar>j\<bar> < 2 ^ 53" using True by simp
  moreover have "real_of_int k = of_int j * pow2 1" using pow2_nat [of 1] by (simp add: j)
  moreover have "\<bar>real_of_int k\<bar> < pow2 1024"
    using True pow2_nat [of 1024] by (simp flip: of_int_abs)
  ultimately show ?thesis by (intro fl_exact [of _ j 1]) simp_all
next
  case False
  assume "\<bar>k\<bar> \<le> 2 ^ 53"
  then have lt: "\<bar>k\<bar> < 2 ^ 53" using False by simp
  have "real_of_int \<bar>k\<bar> < of_int (2 ^ 53)" using lt by (simp only: of_int_less_iff)
  also have "\<dots> \<le> pow2 1024" using pow2_mono [of 53 1024] pow2_of_int [of 53] by simp
  finally have "\<bar>real_of_int k\<bar> < pow2 1024" by simp
  moreover have "real_of_int k = of_int k * pow2 0" using pow2_nat [of 0] by simp
  ultimately show ?thesis using lt by (intro fl_exact [of _ k 0]) simp_all
qed

lemma fl_between:
  assumes lo: "lo \<le> x" and hi: "x \<le> hi" and flo: "fl lo = Fin lo" and fhi: "fl hi = Fin hi"
  shows "\<exists>y. fl x = Fin y \<and> lo \<le> y \<and> y \<le> hi"
proof -
  have a: "num_le (Fin lo) (fl x)" using fl_mono [OF lo] by (simp only: flo)
  have b: "num_le (fl x) (Fin hi)" using fl_mono [OF hi] by (simp only: fhi)
  show ?thesis using a b by (cases "fl x") simp_all
qed

lemma pow2_neg_numeral: "pow2 (- numeral n) = 1 / 2 ^ numeral n"
  using pow2_neg [of "numeral n"] by simp

text \<open>A value just above an integer below \<open>2^26\<close> keeps a ceiling one above it.\<close>

lemma ceiling_fl:
  assumes k0: "0 \<le> k" and k: "k < 2 ^ 26"
    and x: "x \<le> of_int k + 1" and gap: "x = of_int k + 1 \<or> of_int k + pow2 (- 26) \<le> x"
  shows "Math_ceil (fl x) = Fin (of_int (k + 1))"
proof (cases "x = of_int k + 1")
  case True
  have "fl (of_int (k + 1)) = Fin (of_int (k + 1))" using k0 k by (intro fl_int) simp
  then show ?thesis using True by simp
next
  case False
  then have lo: "of_int k + pow2 (- 26) \<le> x" using gap by simp
  have step: "of_int k + pow2 (- 26) = of_int (k * 2 ^ 26 + 1) * pow2 (- 26)"
    by (simp add: pow2_neg_numeral field_simps)
  have small: "\<bar>k * 2 ^ 26 + 1\<bar> < 2 ^ 53" using k0 k by simp
  have "k + 1 < 2 ^ 53" using k by simp
  then have big: "real_of_int (k + 1) < of_int (2 ^ 53)" by (simp only: of_int_less_iff)
  have "real_of_int k + pow2 (- 26) \<le> of_int (k + 1)" by (simp add: pow2_neg_numeral)
  also have "\<dots> < of_int (2 ^ 53)" by (rule big)
  also have "\<dots> \<le> pow2 1024" using pow2_mono [of 53 1024] by (simp add: pow2_numeral)
  finally have "\<bar>real_of_int k + pow2 (- 26)\<bar> < pow2 1024"
    using k0 pow2_pos [of "- 26"] by (simp add: abs_if)
  then have flo: "fl (of_int k + pow2 (- 26)) = Fin (of_int k + pow2 (- 26))"
    using small by (intro fl_exact [OF step]) simp_all
  have fhi: "fl (of_int k + 1) = Fin (of_int k + 1)"
    using fl_int [of "k + 1"] k0 k by simp
  obtain y where y: "fl x = Fin y" "of_int k + pow2 (- 26) \<le> y" "y \<le> of_int k + 1"
    using fl_between [OF lo x flo fhi] by blast
  have "of_int k < y" using y(2) pow2_pos [of "- 26"] by linarith
  then have "\<lceil>y\<rceil> = k + 1" using y(3) by (intro ceiling_unique) simp_all
  then show ?thesis by (simp add: y(1))
qed

section \<open>The grid shape in double arithmetic\<close>

lemma shape_cols_le:
  assumes "n \<le> 2 ^ 50"
  shows "shape_cols n \<le> 2 ^ 25"
proof -
  have "real n \<le> real (2 ^ 50)" using assms by (simp only: of_nat_le_iff)
  then have "real n \<le> (2 ^ 25)\<^sup>2" by simp
  then have "sqrt (real n) \<le> 2 ^ 25" by (intro real_le_lsqrt) simp_all
  then have "\<lceil>sqrt (real n)\<rceil> \<le> 2 ^ 25" by (simp add: ceiling_le_iff)
  then show ?thesis by (simp add: shape_cols_def)
qed

lemma numCols64_nat:
  assumes n1: "1 \<le> n" and n: "n \<le> 2 ^ 50"
  shows "numCols64 (Fin (real n)) = Fin (real (shape_cols n))"
proof -
  let ?c = "shape_cols n"
  define k where "k = int ?c - 1"
  have c1: "1 \<le> ?c" using n1 by (rule shape_cols_pos)
  have c: "?c \<le> 2 ^ 25" using n by (rule shape_cols_le)
  have k0: "0 \<le> k" using c1 by (simp add: k_def)
  have k25: "k < 2 ^ 25" using c by (simp add: k_def)
  then have k26: "k < 2 ^ 26" by simp
  have kc: "real_of_int k + 1 = real ?c" by (simp add: k_def)
  have up: "sqrt (real n) \<le> of_int k + 1" by (simp only: kc shape_cols_real) simp
  have "(?c - 1) * (?c - 1) < n" using n1 by (rule shape_cols_lower)
  then have "Suc ((?c - 1) * (?c - 1)) \<le> n" by simp
  then have "int (Suc ((?c - 1) * (?c - 1))) \<le> int n" by (simp only: of_nat_le_iff)
  then have "int ((?c - 1) * (?c - 1)) + 1 \<le> int n" by simp
  then have "k * k + 1 \<le> int n" using c1 by (simp add: k_def of_nat_diff)
  then have "real_of_int (k * k + 1) \<le> real_of_int (int n)" by (simp only: of_int_le_iff)
  then have kk: "real_of_int k * real_of_int k + 1 \<le> real n" by simp
  have "k + 1 \<le> 2 ^ 25" using k25 by simp
  then have "real_of_int (k + 1) \<le> real_of_int (2 ^ 25)" by (simp only: of_int_le_iff)
  then have "real_of_int k \<le> 2 ^ 25 - 1" by simp
  then have "real_of_int k * (2 * pow2 (- 26)) + pow2 (- 26) * pow2 (- 26) \<le> 1"
    by (simp add: pow2_neg_numeral)
  then have "(real_of_int k + pow2 (- 26))\<^sup>2 \<le> real_of_int k * real_of_int k + 1"
    by (simp add: power2_eq_square algebra_simps)
  then have "(real_of_int k + pow2 (- 26))\<^sup>2 \<le> real n" using kk by linarith
  then have gap: "real_of_int k + pow2 (- 26) \<le> sqrt (real n)" by (rule real_le_rsqrt)
  have "Math_ceil (fl (sqrt (real n))) = Fin (of_int (k + 1))"
    using k0 k26 up gap by (intro ceiling_fl) simp_all
  then show ?thesis by (simp add: numCols64_def sqrt64_def k_def)
qed

lemma numRows64_nat:
  assumes n1: "1 \<le> n" and n: "n \<le> 2 ^ 50"
  shows "numRows64 (Fin (real n)) = Fin (real (shape_rows n))"
proof -
  let ?c = "shape_cols n" and ?r = "shape_rows n"
  define k where "k = int ?r - 1"
  have c1: "1 \<le> ?c" using n1 by (rule shape_cols_pos)
  have r1: "1 \<le> ?r" using n1 by (rule shape_rows_pos)
  have c: "?c \<le> 2 ^ 25" using n by (rule shape_cols_le)
  have "?r \<le> ?c" using n1 by (rule shape_rows_le_cols)
  then have r: "?r \<le> 2 ^ 25" using c by simp
  have cpos: "0 < real ?c" using c1 by simp
  have k0: "0 \<le> k" using r1 by (simp add: k_def)
  have k26: "k < 2 ^ 26" using r by (simp add: k_def)
  have kr: "real_of_int k + 1 = real ?r" by (simp add: k_def)
  have up: "real n / real ?c \<le> of_int k + 1" by (simp only: kr shape_rows_real) simp
  have "(?r - 1) * ?c < n" using n1 by (rule shape_rows_lower)
  then have "Suc ((?r - 1) * ?c) \<le> n" by simp
  then have "int (Suc ((?r - 1) * ?c)) \<le> int n" by (simp only: of_nat_le_iff)
  then have "int ((?r - 1) * ?c) + 1 \<le> int n" by simp
  then have "k * int ?c + 1 \<le> int n" using r1 by (simp add: k_def of_nat_diff)
  then have "real_of_int (k * int ?c + 1) \<le> real_of_int (int n)" by (simp only: of_int_le_iff)
  then have kc: "real_of_int k * real ?c + 1 \<le> real n" by simp
  have "real ?c \<le> real (2 ^ 25)" using c by (simp only: of_nat_le_iff)
  then have "real ?c \<le> 2 ^ 25" by simp
  then have "pow2 (- 26) * real ?c \<le> 1" by (simp add: pow2_neg_numeral)
  then have "(real_of_int k + pow2 (- 26)) * real ?c \<le> real n"
    using kc by (simp add: algebra_simps)
  then have gap: "real_of_int k + pow2 (- 26) \<le> real n / real ?c"
    using cpos by (simp add: pos_le_divide_eq)
  have "Math_ceil (fl (real n / real ?c)) = Fin (of_int (k + 1))"
    using k0 k26 up gap by (intro ceiling_fl) simp_all
  then show ?thesis
    using c1 by (simp add: numRows64_def div64_def numCols64_nat [OF n1 n] k_def)
qed

section \<open>Evaluating a rounding\<close>

lemma fl_normal:
  assumes lo: "pow2 e \<le> x" and hi: "x < pow2 (e + 1)" and e: "- 1022 \<le> e"
    and m: "round_even (x / pow2 (e - 52)) = m"
    and bound: "of_int m * pow2 (e - 52) < pow2 1024"
  shows "fl x = Fin (of_int m * pow2 (e - 52))"
proof -
  have pos: "0 < x" using lo pow2_pos [of e] by linarith
  have "exponent x = e" using lo hi e by (rule exponent_eqI)
  then have "round_abs x = of_int m * pow2 (e - 52)" by (simp add: round_abs_def ulp_def m)
  moreover have "0 \<le> of_int m * pow2 (e - 52)"
    using round_abs_nonneg [of x] pos calculation by simp
  ultimately show ?thesis using pos bound by (simp add: fl_def round_nearest_def)
qed

lemma fl_subnormal:
  assumes x0: "0 \<le> x" and hi: "x < pow2 (- 1022)" and m: "round_even (x / pow2 (- 1074)) = m"
  shows "fl x = Fin (of_int m * pow2 (- 1074))"
proof -
  have "exponent x = - 1022" using hi by (rule exponent_subnormal)
  then have r: "round_abs x = of_int m * pow2 (- 1074)" by (simp add: round_abs_def ulp_def m)
  have "round_abs x \<le> pow2 (- 1022)"
    using round_abs_upper [of x] exponent_subnormal [OF hi] pow2_mono [of "- 1021" "- 1022"]
      round_abs_mono [of x "pow2 (- 1022)"] round_abs_exact [of "pow2 (- 1022)" 1 "- 1022"] hi
    by simp
  also have "\<dots> < pow2 1024"
    using pow2_mono [of "- 1022" 0] pow2_mono [of 1 1024] pow2_nat [of 0] pow2_nat [of 1] by simp
  finally have small: "round_abs x < pow2 1024" .
  have nonneg: "0 \<le> round_abs x" using x0 by (rule round_abs_nonneg)
  show ?thesis
  proof (cases "x = 0")
    case True
    then show ?thesis
      using r pow2_pos [of 1024] by (simp add: fl_def round_nearest_def round_abs_zero not_le)
  next
    case False
    then have "0 < x" using x0 by simp
    then show ?thesis using small nonneg r by (simp add: fl_def round_nearest_def)
  qed
qed

lemmas pow2_eval = pow2_numeral pow2_neg_numeral

section \<open>The loops return in double arithmetic\<close>

lemma counter_step:
  assumes "Suc k \<le> 2 ^ 53"
  shows "add64 (Fin (real k)) (Fin 1) = Fin (real (Suc k))"
proof -
  have "int (Suc k) \<le> int (2 ^ 53)" using assms by (simp only: of_nat_le_iff)
  then have "\<bar>int (Suc k)\<bar> \<le> 2 ^ 53" by simp
  then have "fl (of_int (int (Suc k))) = Fin (of_int (int (Suc k)))" by (rule fl_int)
  then show ?thesis by (simp add: add64_def add.commute)
qed

lemma distances_cols64_fin:
  "k \<le> c \<Longrightarrow> c \<le> 2 ^ 53 \<Longrightarrow>
   distances_cols64 dims (Fin (real c)) sX sY eX eY row (Fin (real k)) acc =
     Some (acc @ filter (accepted dims)
                   (map (\<lambda>col. cell64 sX sY eX eY row (Fin (real col))) [k..<c]))"
proof (induction "c - k" arbitrary: k acc)
  case 0
  then have "k = c" by simp
  then show ?case by (subst distances_cols64.simps) simp
next
  case (Suc d)
  then have lt: "k < c" and d: "d = c - Suc k" and le: "Suc k \<le> c" by simp_all
  have step: "add64 (Fin (real k)) (Fin 1) = Fin (real (Suc k))"
    using le Suc.prems(2) by (intro counter_step) simp
  show ?case
    apply (subst distances_cols64.simps)
    using lt Suc.hyps(1) [OF d le Suc.prems(2)]
    apply (simp add: step Let_def upt_conv_Cons accepted_def cell64_def del: of_nat_Suc)
    done
qed

lemma distances_rows64_fin:
  "k \<le> r \<Longrightarrow> r \<le> 2 ^ 53 \<Longrightarrow> c \<le> 2 ^ 53 \<Longrightarrow>
   distances_rows64 dims (Fin (real r)) (Fin (real c)) sX sY eX eY (Fin (real k)) acc =
     Some (acc @ concat (map (\<lambda>row. filter (accepted dims)
        (map (\<lambda>col. cell64 sX sY eX eY (Fin (real row)) (Fin (real col))) [0..<c])) [k..<r]))"
proof (induction "r - k" arbitrary: k acc)
  case 0
  then have "k = r" by simp
  then show ?case by (subst distances_rows64.simps) simp
next
  case (Suc d)
  then have lt: "k < r" and d: "d = r - Suc k" and le: "Suc k \<le> r" by simp_all
  have step: "add64 (Fin (real k)) (Fin 1) = Fin (real (Suc k))"
    using le Suc.prems(2) by (intro counter_step) simp
  show ?case
    apply (subst distances_rows64.simps)
    using lt Suc.hyps(1) [OF d le Suc.prems(2,3)]
      distances_cols64_fin [of 0 c dims sX sY eX eY "Fin (real k)" acc] Suc.prems(3)
    apply (simp add: step upt_conv_Cons del: of_nat_Suc)
    done
qed

lemma grid_cols64_fin:
  "k \<le> c \<Longrightarrow> c \<le> 2 ^ 53 \<Longrightarrow>
   grid_cols64 cw ch fs (Fin (real c)) sX sY eX eY row (Fin (real k)) acc =
     Some (acc @ filter (dot_accepted cw ch)
                   (map (\<lambda>col. dot_cell64 fs sX sY eX eY row (Fin (real col))) [k..<c]))"
proof (induction "c - k" arbitrary: k acc)
  case 0
  then have "k = c" by simp
  then show ?case by (subst grid_cols64.simps) simp
next
  case (Suc d)
  then have lt: "k < c" and d: "d = c - Suc k" and le: "Suc k \<le> c" by simp_all
  have step: "add64 (Fin (real k)) (Fin 1) = Fin (real (Suc k))"
    using le Suc.prems(2) by (intro counter_step) simp
  show ?case
    apply (subst grid_cols64.simps)
    using lt Suc.hyps(1) [OF d le Suc.prems(2)]
    apply (simp add: step Let_def upt_conv_Cons dot_accepted_def dot_cell64_def del: of_nat_Suc)
    done
qed

lemma grid_rows64_fin:
  "k \<le> r \<Longrightarrow> r \<le> 2 ^ 53 \<Longrightarrow> c \<le> 2 ^ 53 \<Longrightarrow>
   grid_rows64 cw ch fs (Fin (real r)) (Fin (real c)) sX sY eX eY (Fin (real k)) acc =
     Some (acc @ concat (map (\<lambda>row. filter (dot_accepted cw ch)
        (map (\<lambda>col. dot_cell64 fs sX sY eX eY (Fin (real row)) (Fin (real col))) [0..<c]))
        [k..<r]))"
proof (induction "r - k" arbitrary: k acc)
  case 0
  then have "k = r" by simp
  then show ?case by (subst grid_rows64.simps) simp
next
  case (Suc d)
  then have lt: "k < r" and d: "d = r - Suc k" and le: "Suc k \<le> r" by simp_all
  have step: "add64 (Fin (real k)) (Fin 1) = Fin (real (Suc k))"
    using le Suc.prems(2) by (intro counter_step) simp
  show ?case
    apply (subst grid_rows64.simps)
    using lt Suc.hyps(1) [OF d le Suc.prems(2,3)]
      grid_cols64_fin [of 0 c cw ch fs sX sY eX eY "Fin (real k)" acc] Suc.prems(3)
    apply (simp add: step upt_conv_Cons del: of_nat_Suc)
    done
qed

section \<open>Relative error and idempotence\<close>

lemma pow2_strict_mono: "a < b \<Longrightarrow> pow2 a < pow2 b"
  by (simp add: pow2_def)

lemma pow2_Suc: "pow2 (k + 1) = 2 * pow2 k"
  using pow2_add [of k 1] pow2_nat [of 1] by simp

lemma round_abs_rel:
  assumes a: "pow2 (- 1022) \<le> a"
  shows "round_abs a \<le> a * (1 + pow2 (- 53))"
proof -
  have u: "0 < ulp a" by (rule ulp_pos)
  have "of_int (round_even (a / ulp a)) \<le> a / ulp a + 1 / 2"
    using round_even_near [of "a / ulp a"] by linarith
  then have "round_abs a \<le> (a / ulp a + 1 / 2) * ulp a"
    unfolding round_abs_def using u by (intro mult_right_mono) simp_all
  also have "\<dots> = a + ulp a / 2" using u by (simp add: field_simps)
  finally have 1: "round_abs a \<le> a + ulp a / 2" .
  have "ulp a = pow2 (exponent a) * pow2 (- 52)" by (simp add: ulp_def pow2_add [symmetric])
  also have "\<dots> \<le> a * pow2 (- 52)"
    using exponent_lower [OF a] pow2_pos [of "- 52"] by (intro mult_right_mono) simp_all
  finally have "ulp a / 2 \<le> a * (pow2 (- 52) / 2)" by simp
  also have "pow2 (- 52) / 2 = pow2 (- 53)" by (simp add: pow2_neg_numeral)
  finally have "ulp a / 2 \<le> a * pow2 (- 53)" .
  then show ?thesis using 1 by (simp add: algebra_simps)
qed

lemma fl_rel:
  assumes lo: "pow2 (- 1022) \<le> x" and hi: "x \<le> pow2 1023"
  shows "\<exists>y. fl x = Fin y \<and> 0 \<le> y \<and> y \<le> x * (1 + pow2 (- 53))"
proof -
  have pos: "0 < x" using lo pow2_pos [of "- 1022"] by linarith
  have r: "round_abs x \<le> x * (1 + pow2 (- 53))" using lo by (rule round_abs_rel)
  have "x * (1 + pow2 (- 53)) \<le> pow2 1023 * (1 + pow2 (- 53))"
    using hi pow2_pos [of "- 53"] by (intro mult_right_mono) simp_all
  also have "\<dots> < pow2 1023 * 2"
    using pow2_pos [of 1023] by (intro mult_strict_left_mono) (simp_all add: pow2_neg_numeral)
  also have "\<dots> = pow2 1024" using pow2_add [of 1023 1] by (simp add: pow2_numeral)
  finally have "round_abs x < pow2 1024" using r by linarith
  moreover have "0 \<le> round_abs x" using pos by (intro round_abs_nonneg) simp
  ultimately show ?thesis using pos r by (simp add: fl_def round_nearest_def)
qed

text \<open>What rounding returns is a double: rounding it again changes nothing.\<close>

lemma round_abs_idem: "0 \<le> a \<Longrightarrow> round_abs (round_abs a) = round_abs a"
proof -
  assume a: "0 \<le> a"
  define m where "m = round_even (a / ulp a)"
  have m0: "0 \<le> m"
    unfolding m_def using a ulp_pos [of a] by (intro round_even_ge) simp
  have "a / ulp a \<le> of_int (2 ^ 53)"
    using quotient_upper [of a] by (simp add: pow2_numeral)
  then have m53: "m \<le> 2 ^ 53" unfolding m_def by (rule round_even_le)
  have r: "round_abs a = of_int m * pow2 (exponent a - 52)"
    by (simp add: round_abs_def ulp_def m_def)
  show ?thesis
  proof (cases "m = 2 ^ 53")
    case True
    have "round_abs a = of_int (2 ^ 52) * pow2 (exponent a - 52 + 1)"
      unfolding r True by (simp only: pow2_Suc) simp
    then show ?thesis
      using exponent_ge [of a] by (intro round_abs_exact [of _ "2 ^ 52" "exponent a - 52 + 1"]) simp_all
  next
    case False
    then have "m < 2 ^ 53" using m53 by simp
    then show ?thesis
      using r m0 exponent_ge [of a] by (intro round_abs_exact [of _ m "exponent a - 52"]) simp_all
  qed
qed

lemma fl_idem:
  assumes "fl x = Fin y"
  shows "fl y = Fin y"
proof -
  have y: "y = round_nearest x" and small: "\<not> pow2 1024 \<le> \<bar>y\<bar>"
    using assms by (auto simp: fl_def Let_def split: if_splits)
  have nonneg: "0 \<le> round_abs \<bar>x\<bar>" by (rule round_abs_nonneg) simp
  have abs_y: "\<bar>y\<bar> = round_abs \<bar>x\<bar>"
    using nonneg by (cases "x = 0") (simp_all add: y round_nearest_def abs_mult round_abs_zero)
  have "round_abs \<bar>y\<bar> = \<bar>y\<bar>" unfolding abs_y by (rule round_abs_idem) simp
  then have "round_nearest y = y" by (simp add: round_nearest_def sgn_if)
  then show ?thesis using small by (simp add: fl_def)
qed

lemma fl_zero: "fl 0 = Fin 0"
  using fl_int [of 0] by simp

lemma fl_pow2: "- 1074 \<le> p \<Longrightarrow> p < 1024 \<Longrightarrow> fl (pow2 p) = Fin (pow2 p)"
proof -
  assume p: "- 1074 \<le> p" and q: "p < 1024"
  have "pow2 p < pow2 1024" using q by (rule pow2_strict_mono)
  then show ?thesis
    using p pow2_pos [of p] by (intro fl_exact [of _ 1 p]) simp_all
qed

section \<open>Cell centres in double arithmetic\<close>

lemma margin: "(1 - pow2 (- 26)) * ((1 + pow2 (- 53)) * (1 + pow2 (- 53))) \<le> 1"
  by (simp add: pow2_neg_numeral)

lemma coord64:
  assumes W: "fl W = Fin W" and lo: "pow2 (- 1000) * real c \<le> W" and hi: "W \<le> pow2 1000"
    and c1: "1 \<le> c" and c25: "c \<le> 2 ^ 25" and k: "k < c"
  shows "\<exists>s y. div64 (Fin W) (Fin (real c)) = Fin s
           \<and> add64 (div64 (Fin s) (Fin 2)) (mul64 (Fin (real k)) (Fin s)) = Fin y
           \<and> 0 \<le> y \<and> y \<le> W"
proof -
  let ?e = "1 + pow2 (- 53)"
  have e1: "1 \<le> ?e" "?e \<le> 2" using pow2_pos [of "- 53"] by (simp_all add: pow2_neg_numeral)
  have cpos: "0 < real c" using c1 by simp
  have creal: "1 \<le> real c" using c1 by simp
  define q where "q = W / real c"
  have qlo: "pow2 (- 1000) \<le> q" using lo cpos by (simp add: q_def pos_le_divide_eq)
  have qpos: "0 < q" using qlo pow2_pos [of "- 1000"] by linarith
  have Wpos: "0 < W" using qpos cpos by (simp add: q_def zero_less_divide_iff)
  have qW: "q \<le> W" using Wpos creal by (simp add: q_def pos_divide_le_eq mult_le_cancel_left1)
  have p1000: "pow2 1000 \<le> pow2 1021" "pow2 (- 1022) \<le> pow2 (- 1001)"
      "pow2 (- 1001) \<le> pow2 (- 1000)" "pow2 1021 \<le> pow2 1023" "pow2 1022 \<le> pow2 1023"
    by (rule pow2_mono, simp)+
  have p2: "2 * pow2 1000 = pow2 1001" "2 * pow2 1001 = pow2 1002" "2 * pow2 (- 1001) = pow2 (- 1000)"
    using pow2_Suc [of 1000] pow2_Suc [of 1001] pow2_Suc [of "- 1001"] by simp_all
  have p3: "pow2 1001 \<le> pow2 1023" "pow2 1002 \<le> pow2 1023" by (rule pow2_mono, simp)+
  \<comment> \<open>the spacing\<close>
  obtain s where s: "fl q = Fin s" "0 \<le> s" "s \<le> q * ?e"
    using fl_rel [of q] qlo qW hi p1000 by force
  have "num_le (fl (pow2 (- 1000))) (fl q)" using qlo by (rule fl_mono)
  then have slo: "pow2 (- 1000) \<le> s" by (simp add: fl_pow2 s(1))
  have "q * ?e \<le> q * 2" using e1(2) qpos by (intro mult_left_mono) simp_all
  then have s2q: "s \<le> 2 * q" using s(3) by simp
  have shi: "s \<le> pow2 1001" using s2q qW hi p2 by linarith
  have spacing: "div64 (Fin W) (Fin (real c)) = Fin s"
    using cpos s(1) by (simp add: div64_def q_def)
  \<comment> \<open>half the spacing\<close>
  obtain a where a: "fl (s / 2) = Fin a" "0 \<le> a" "a \<le> s / 2 * ?e"
    using fl_rel [of "s / 2"] slo shi p1000 p2 p3 by force
  have edge: "div64 (Fin s) (Fin 2) = Fin a" using a(1) by (simp add: div64_def)
  \<comment> \<open>the offset of the column\<close>
  have "\<exists>t. fl (real k * s) = Fin t \<and> 0 \<le> t \<and> t \<le> real k * s * ?e"
  proof (cases "k = 0")
    case True
    then show ?thesis by (simp add: fl_zero)
  next
    case False
    then have k1: "1 \<le> real k" by simp
    have "s \<le> real k * s" using k1 s(2) by (simp add: mult_le_cancel_right1)
    then have lo': "pow2 (- 1022) \<le> real k * s" using slo p1000 by linarith
    have "real k * s \<le> real c * (2 * q)"
      using k s2q s(2) by (intro mult_mono) simp_all
    also have "\<dots> = 2 * W" using cpos by (simp add: q_def)
    finally have "real k * s \<le> pow2 1023" using hi p2 p3 by linarith
    then show ?thesis using fl_rel [OF lo'] by simp
  qed
  then obtain t where t: "fl (real k * s) = Fin t" "0 \<le> t" "t \<le> real k * s * ?e" by blast
  have offset: "mul64 (Fin (real k)) (Fin s) = Fin t" using t(1) by (simp add: mul64_def)
  \<comment> \<open>their sum stays within the width\<close>
  have "Suc k \<le> c" using k by simp
  then have "real (Suc k) \<le> real c" by (simp only: of_nat_le_iff)
  then have kc: "real k + 1 / 2 \<le> real c - 1 / 2" by simp
  have "a + t \<le> (real k + 1 / 2) * (s * ?e)" using a(3) t(3) by (simp add: algebra_simps)
  also have "\<dots> \<le> (real c - 1 / 2) * (s * ?e)"
    using kc s(2) e1(1) by (intro mult_right_mono) simp_all
  also have "\<dots> \<le> (real c - 1 / 2) * (q * ?e * ?e)"
    using s(3) e1(1) creal by (intro mult_left_mono mult_right_mono) simp_all
  also have "\<dots> = W * (1 - 1 / (2 * real c)) * (?e * ?e)"
    using cpos by (simp add: q_def field_simps)
  also have "\<dots> \<le> W * (1 - pow2 (- 26)) * (?e * ?e)"
  proof -
    have "real c \<le> real (2 ^ 25)" using c25 by (simp only: of_nat_le_iff)
    then have "2 * real c \<le> 2 ^ 26" by simp
    then have "1 / 2 ^ 26 \<le> 1 / (2 * real c)" using cpos by (intro divide_left_mono) simp_all
    then have "1 - 1 / (2 * real c) \<le> 1 - pow2 (- 26)" by (simp add: pow2_neg_numeral)
    then show ?thesis using Wpos e1(1) by (intro mult_right_mono mult_left_mono) simp_all
  qed
  also have "\<dots> = W * ((1 - pow2 (- 26)) * (?e * ?e))" by simp
  also have "\<dots> \<le> W * 1" using margin Wpos by (intro mult_left_mono) simp_all
  finally have sum_hi: "a + t \<le> W" by simp
  have sum_lo: "0 \<le> a + t" using a(2) t(2) by simp
  obtain y where y: "fl (a + t) = Fin y" "0 \<le> y" "y \<le> W"
    using fl_between [OF sum_lo sum_hi fl_zero W] by blast
  have "add64 (div64 (Fin s) (Fin 2)) (mul64 (Fin (real k)) (Fin s)) = Fin y"
    by (simp add: edge offset add64_def y(1))
  then show ?thesis using spacing y(2,3) by blast
qed

lemma coord64_zero:
  assumes c1: "1 \<le> c"
  shows "div64 (Fin 0) (Fin (real c)) = Fin 0
         \<and> add64 (div64 (Fin 0) (Fin 2)) (mul64 (Fin (real k)) (Fin 0)) = Fin 0"
  using c1 by (simp add: div64_def mul64_def add64_def fl_zero)

lemma coord64_any:
  assumes W: "fl W = Fin W" and lo: "W = 0 \<or> pow2 (- 1000) * real c \<le> W"
    and hi: "W \<le> pow2 1000" and c1: "1 \<le> c" and c25: "c \<le> 2 ^ 25" and k: "k < c"
  shows "\<exists>s y. div64 (Fin W) (Fin (real c)) = Fin s
           \<and> add64 (div64 (Fin s) (Fin 2)) (mul64 (Fin (real k)) (Fin s)) = Fin y
           \<and> 0 \<le> y \<and> y \<le> W"
proof (cases "W = 0")
  case True
  then show ?thesis using coord64_zero [OF c1, of k] by simp
next
  case False
  then have "pow2 (- 1000) * real c \<le> W" using lo by simp
  then show ?thesis using W hi c1 c25 k by (intro coord64)
qed

lemma concat_all:
  assumes "\<And>row col. row < r \<Longrightarrow> col < c \<Longrightarrow> P (f row col)"
  shows "concat (map (\<lambda>row. filter P (map (f row) [0..<c])) [0..<r]) =
           concat (map (\<lambda>row. map (f row) [0..<c]) [0..<r])"
proof -
  have "filter P (map (f row) [0..<c]) = map (f row) [0..<c]" if "row < r" for row
    by (rule filter_True) (auto simp: assms [OF that])
  then show ?thesis
    by (intro arg_cong [where f = concat] map_cong refl) simp
qed

lemma calculatedDistances64_full:
  assumes W: "fl W = Fin W" and Wlo: "pow2 (- 400) \<le> W" and Whi: "W \<le> pow2 400"
    and H: "fl H = Fin H" and Hlo: "pow2 (- 400) \<le> H" and Hhi: "H \<le> pow2 400"
    and n1: "1 \<le> n" and n: "n \<le> 2 ^ 50"
  shows "\<exists>ds. calculatedDistances64 \<lparr>width = Fin W, height = Fin H\<rparr> (Fin (real n)) = Some ds
           \<and> length ds = shape_rows n * shape_cols n"
proof -
  let ?c = "shape_cols n" and ?r = "shape_rows n"
  let ?dims = "\<lparr>width = Fin W, height = Fin H\<rparr>"
  have c1: "1 \<le> ?c" using n1 by (rule shape_cols_pos)
  have r1: "1 \<le> ?r" using n1 by (rule shape_rows_pos)
  have c25: "?c \<le> 2 ^ 25" using n by (rule shape_cols_le)
  have "?r \<le> ?c" using n1 by (rule shape_rows_le_cols)
  then have r25: "?r \<le> 2 ^ 25" using c25 by simp
  have big: "(2::nat) ^ 25 \<le> 2 ^ 53" by simp
  have c53: "?c \<le> 2 ^ 53" and r53: "?r \<le> 2 ^ 53" using c25 r25 big by linarith+
  have small: "pow2 (- 1000) * real m \<le> pow2 (- 400)" if "m \<le> 2 ^ 25" for m :: nat
  proof -
    have "real m \<le> real (2 ^ 25)" using that by (simp only: of_nat_le_iff)
    then have "pow2 (- 1000) * real m \<le> pow2 (- 1000) * pow2 25"
      using pow2_pos [of "- 1000"] by (intro mult_left_mono) (simp_all add: pow2_numeral)
    also have "\<dots> = pow2 (- 975)" by (simp add: pow2_add [symmetric])
    also have "\<dots> \<le> pow2 (- 400)" by (rule pow2_mono) simp
    finally show ?thesis .
  qed
  have top: "pow2 400 \<le> pow2 1000" by (rule pow2_mono) simp
  have Wc: "W = 0 \<or> pow2 (- 1000) * real ?c \<le> W" using small [OF c25] Wlo by linarith
  have Hr: "H = 0 \<or> pow2 (- 1000) * real ?r \<le> H" using small [OF r25] Hlo by linarith
  obtain sx where sx: "div64 (Fin W) (Fin (real ?c)) = Fin sx"
    using coord64_any [OF W Wc _ c1 c25, of 0] Whi top c1 by force
  obtain sy where sy: "div64 (Fin H) (Fin (real ?r)) = Fin sy"
    using coord64_any [OF H Hr _ r1 r25, of 0] Hhi top r1 by force
  have inside: "accepted ?dims (cell64 (Fin sx) (Fin sy) (div64 (Fin sx) (Fin 2))
      (div64 (Fin sy) (Fin 2)) (Fin (real row)) (Fin (real col)))"
    if row: "row < ?r" and col: "col < ?c" for row col
  proof -
    obtain x where x: "add64 (div64 (Fin sx) (Fin 2)) (mul64 (Fin (real col)) (Fin sx)) = Fin x"
        "x \<le> W"
      using coord64_any [OF W Wc _ c1 c25 col] Whi top sx by force
    obtain y where y: "add64 (div64 (Fin sy) (Fin 2)) (mul64 (Fin (real row)) (Fin sy)) = Fin y"
        "y \<le> H"
      using coord64_any [OF H Hr _ r1 r25 row] Hhi top sy by force
    show ?thesis by (simp add: accepted_def cell64_def x y)
  qed
  have zero: "Fin 0 = Fin (real 0)" by simp
  have "calculatedDistances64 ?dims (Fin (real n)) =
      Some (concat (map (\<lambda>row. map (\<lambda>col. cell64 (Fin sx) (Fin sy) (div64 (Fin sx) (Fin 2))
        (div64 (Fin sy) (Fin 2)) (Fin (real row)) (Fin (real col))) [0..<?c]) [0..<?r]))"
    unfolding calculatedDistances64_def Let_def numCols64_nat [OF n1 n] numRows64_nat [OF n1 n]
      dimensions.simps sx sy
    apply (subst zero)
    apply (subst distances_rows64_fin [OF _ r53 c53])
     apply simp
    apply (simp only: append_Nil concat_all [of ?r ?c "accepted ?dims", OF inside])
    done
  then show ?thesis by (simp add: length_concat comp_def sum_list_triv)
qed

text \<open>The double that follows 40 is \<open>40 + 2^-47\<close>.\<close>

lemma next_above_40:
  assumes x: "fl x = Fin x" and gt: "40 < x"
  shows "40 + pow2 (- 47) \<le> x"
proof (rule ccontr)
  assume "\<not> 40 + pow2 (- 47) \<le> x"
  then have lt: "x < 40 + pow2 (- 47)" by simp
  let ?u = "pow2 (- 47)"
  let ?M = "40 * 2 ^ 47 :: int"
  have upos: "0 < ?u" by (rule pow2_pos)
  have u1: "?u \<le> 1" by (simp add: pow2_neg_numeral)
  have "pow2 5 \<le> x" using gt by (simp add: pow2_numeral)
  moreover have "x < pow2 (5 + 1)" using lt u1 by (simp add: pow2_numeral)
  ultimately have "exponent x = 5" by (rule exponent_eqI) simp
  then have ulp: "ulp x = ?u" by (simp add: ulp_def)
  have forty: "of_int ?M * ?u = 40" by (simp add: pow2_neg_numeral)
  have "of_int ?M * ?u < x" using gt by (simp only: forty)
  then have q1: "of_int ?M < x / ?u" using upos by (simp only: pos_less_divide_eq)
  have "x < (of_int ?M + 1) * ?u" using lt forty by (simp add: algebra_simps)
  then have q2: "x / ?u < of_int ?M + 1" using upos by (simp only: pos_divide_less_eq)
  have "\<lfloor>x / ?u\<rfloor> = ?M" using q1 q2 by linarith
  then have "round_even (x / ?u) = ?M \<or> round_even (x / ?u) = ?M + 1"
    using round_even_bounds [of "x / ?u"] by linarith
  then have "round_abs x = of_int ?M * ?u \<or> round_abs x = of_int (?M + 1) * ?u"
    by (auto simp: round_abs_def ulp)
  then have r: "round_abs x = 40 \<or> round_abs x = 40 + ?u"
    by (simp add: pow2_neg_numeral)
  have "round_nearest x = x" using x by (auto simp: fl_def Let_def split: if_splits)
  then have "round_abs x = x" using gt by (simp add: round_nearest_def)
  then show False using r gt lt by linarith
qed

lemma container_width:
  assumes sw: "fl sw = Fin sw" and lo: "40 \<le> sw" and hi: "sw \<le> pow2 100"
  shows "\<exists>cw. sub64 (Fin sw) (Fin 40) = Fin cw \<and> fl cw = Fin cw
           \<and> (cw = 0 \<or> pow2 (- 47) \<le> cw) \<and> cw \<le> pow2 100"
proof (cases "sw = 40")
  case True
  have "0 \<le> pow2 100" using pow2_pos [of 100] by simp
  then show ?thesis using True by (simp add: sub64_def num_sub_def fl_zero)
next
  case False
  then have "40 < sw" using lo by simp
  then have "40 + pow2 (- 47) \<le> sw" using sw by (intro next_above_40)
  then have a: "pow2 (- 47) \<le> sw - 40" by simp
  have b: "sw - 40 \<le> pow2 100" using hi by simp
  obtain cw where cw: "fl (sw - 40) = Fin cw" "pow2 (- 47) \<le> cw" "cw \<le> pow2 100"
    using fl_between [OF a b fl_pow2 fl_pow2] by auto
  have "fl cw = Fin cw" using cw(1) by (rule fl_idem)
  then show ?thesis using cw by (simp add: sub64_def num_sub_def)
qed

lemma renderFocusGrid64_full:
  assumes W: "fl W = Fin W" and Wlo: "pow2 (- 400) \<le> W" and Whi: "W \<le> pow2 400"
    and H: "fl H = Fin H" and Hlo: "pow2 (- 400) \<le> H" and Hhi: "H \<le> pow2 400"
    and n1: "1 \<le> n" and n: "n \<le> 2 ^ 50"
    and sw: "fl sw = Fin sw" and swlo: "40 \<le> sw" and swhi: "sw \<le> pow2 100"
  shows "\<exists>cw ch dots.
           renderFocusGrid64 (Fin sw) \<lparr>width = Fin W, height = Fin H\<rparr> (Fin (real n)) =
             Some (GridContainer cw ch dots)
         \<and> length dots = shape_rows n * shape_cols n"
proof -
  let ?c = "shape_cols n" and ?r = "shape_rows n"
  have c1: "1 \<le> ?c" using n1 by (rule shape_cols_pos)
  have r1: "1 \<le> ?r" using n1 by (rule shape_rows_pos)
  have c25: "?c \<le> 2 ^ 25" using n by (rule shape_cols_le)
  have "?r \<le> ?c" using n1 by (rule shape_rows_le_cols)
  then have r25: "?r \<le> 2 ^ 25" using c25 by simp
  have big: "(2::nat) ^ 25 \<le> 2 ^ 53" by simp
  have c53: "?c \<le> 2 ^ 53" and r53: "?r \<le> 2 ^ 53" using c25 r25 big by linarith+
  have Wpos: "0 < W" and Hpos: "0 < H" using Wlo Hlo pow2_pos [of "- 400"] by linarith+
  \<comment> \<open>the aspect ratio\<close>
  have "pow2 (- 400) / pow2 400 \<le> W / H"
    using Wlo Hhi Hpos pow2_pos [of "- 400"] by (intro frac_le) simp_all
  then have alo: "pow2 (- 800) \<le> W / H" by (simp add: pow2_diff)
  have "W / H \<le> pow2 400 / pow2 (- 400)"
    using Whi Hlo Wpos pow2_pos [of "- 400"] by (intro frac_le) simp_all
  then have ahi: "W / H \<le> pow2 800" by (simp add: pow2_diff)
  obtain ar where ar: "fl (W / H) = Fin ar" "pow2 (- 800) \<le> ar" "ar \<le> pow2 800"
    using fl_between [OF alo ahi fl_pow2 fl_pow2] by auto
  have arpos: "0 < ar" using ar(2) pow2_pos [of "- 800"] by linarith
  have aspect: "div64 (Fin W) (Fin H) = Fin ar" using Hpos ar(1) by (simp add: div64_def)
  \<comment> \<open>the container\<close>
  obtain cw where cw: "sub64 (Fin sw) (Fin 40) = Fin cw" "fl cw = Fin cw"
      "cw = 0 \<or> pow2 (- 47) \<le> cw" "cw \<le> pow2 100"
    using container_width [OF sw swlo swhi] by blast
  have "\<exists>ch. fl (cw / ar) = Fin ch \<and> (ch = 0 \<or> pow2 (- 847) \<le> ch) \<and> ch \<le> pow2 900"
  proof (cases "cw = 0")
    case True
    have "0 \<le> pow2 900" using pow2_pos [of 900] by simp
    then show ?thesis using True by (simp add: fl_zero)
  next
    case False
    then have cwlo: "pow2 (- 47) \<le> cw" using cw(3) by simp
    then have cwpos: "0 < cw" using pow2_pos [of "- 47"] by linarith
    have "pow2 (- 47) / pow2 800 \<le> cw / ar"
      using cwlo ar(3) arpos pow2_pos [of "- 47"] by (intro frac_le) simp_all
    then have lo: "pow2 (- 847) \<le> cw / ar" by (simp add: pow2_diff)
    have "cw / ar \<le> pow2 100 / pow2 (- 800)"
      using cw(4) ar(2) cwpos pow2_pos [of "- 800"] by (intro frac_le) simp_all
    then have hi: "cw / ar \<le> pow2 900" by (simp add: pow2_diff)
    show ?thesis using fl_between [OF lo hi fl_pow2 fl_pow2] by auto
  qed
  then obtain ch where ch: "fl (cw / ar) = Fin ch" "ch = 0 \<or> pow2 (- 847) \<le> ch"
      "ch \<le> pow2 900" by blast
  have chd: "fl ch = Fin ch" using ch(1) by (rule fl_idem)
  have height: "div64 (Fin cw) (Fin ar) = Fin ch" using arpos ch(1) by (simp add: div64_def)
  have small: "pow2 (- 1000) * real m \<le> pow2 (- 975)" if "m \<le> 2 ^ 25" for m :: nat
  proof -
    have "real m \<le> real (2 ^ 25)" using that by (simp only: of_nat_le_iff)
    then have "pow2 (- 1000) * real m \<le> pow2 (- 1000) * pow2 25"
      using pow2_pos [of "- 1000"] by (intro mult_left_mono) (simp_all add: pow2_numeral)
    also have "\<dots> = pow2 (- 975)" by (simp add: pow2_add [symmetric])
    finally show ?thesis .
  qed
  have steps: "pow2 (- 975) \<le> pow2 (- 47)" "pow2 (- 975) \<le> pow2 (- 847)"
      "pow2 100 \<le> pow2 1000" "pow2 900 \<le> pow2 1000"
    by (rule pow2_mono, simp)+
  have cwc: "cw = 0 \<or> pow2 (- 1000) * real ?c \<le> cw" using small [OF c25] cw(3) steps by linarith
  have chr: "ch = 0 \<or> pow2 (- 1000) * real ?r \<le> ch" using small [OF r25] ch(2) steps by linarith
  have cwtop: "cw \<le> pow2 1000" and chtop: "ch \<le> pow2 1000" using cw(4) ch(3) steps by linarith+
  obtain sx where sx: "div64 (Fin cw) (Fin (real ?c)) = Fin sx"
    using coord64_any [OF cw(2) cwc cwtop c1 c25, of 0] c1 by force
  obtain sy where sy: "div64 (Fin ch) (Fin (real ?r)) = Fin sy"
    using coord64_any [OF chd chr chtop r1 r25, of 0] r1 by force
  have inside: "dot_accepted (Fin cw) (Fin ch) (dot_cell64 (Fin 20) (Fin sx) (Fin sy)
      (div64 (Fin sx) (Fin 2)) (div64 (Fin sy) (Fin 2)) (Fin (real row)) (Fin (real col)))"
    if row: "row < ?r" and col: "col < ?c" for row col
  proof -
    obtain x where x: "add64 (div64 (Fin sx) (Fin 2)) (mul64 (Fin (real col)) (Fin sx)) = Fin x"
        "x \<le> cw"
      using coord64_any [OF cw(2) cwc cwtop c1 c25 col] sx by force
    obtain y where y: "add64 (div64 (Fin sy) (Fin 2)) (mul64 (Fin (real row)) (Fin sy)) = Fin y"
        "y \<le> ch"
      using coord64_any [OF chd chr chtop r1 r25 row] sy by force
    show ?thesis by (simp add: dot_accepted_def dot_cell64_def x y)
  qed
  have shown: "\<not> num_le (Fin (real n)) (Fin 0)" using n1 by simp
  have zero: "Fin 0 = Fin (real 0)" by simp
  have "grid_rows64 (Fin cw) (Fin ch) (Fin 20) (Fin (real ?r)) (Fin (real ?c)) (Fin sx) (Fin sy)
      (div64 (Fin sx) (Fin 2)) (div64 (Fin sy) (Fin 2)) (Fin 0) [] =
      Some (concat (map (\<lambda>row. map (\<lambda>col. dot_cell64 (Fin 20) (Fin sx) (Fin sy)
        (div64 (Fin sx) (Fin 2)) (div64 (Fin sy) (Fin 2)) (Fin (real row)) (Fin (real col)))
        [0..<?c]) [0..<?r]))"
    apply (subst zero)
    apply (subst grid_rows64_fin [OF _ r53 c53])
     apply simp
    apply (simp only: append_Nil concat_all [of ?r ?c "dot_accepted (Fin cw) (Fin ch)", OF inside])
    done
  then have "renderFocusGrid64 (Fin sw) \<lparr>width = Fin W, height = Fin H\<rparr> (Fin (real n)) =
      Some (GridContainer (Fin cw) (Fin ch)
        (concat (map (\<lambda>row. map (\<lambda>col. dot_cell64 (Fin 20) (Fin sx) (Fin sy)
        (div64 (Fin sx) (Fin 2)) (div64 (Fin sy) (Fin 2)) (Fin (real row)) (Fin (real col)))
        [0..<?c]) [0..<?r])))"
    unfolding renderFocusGrid64_def Let_def numCols64_nat [OF n1 n] numRows64_nat [OF n1 n]
      dimensions.simps
    by (simp only: shown if_False aspect cw(1) height sx sy option.map)
  then show ?thesis by (simp add: length_concat comp_def sum_list_triv)
qed

section \<open>Bounds on the lists\<close>

lemma length_concat_filter:
  "length (concat (map (\<lambda>row. filter P (map (f row) [0..<c])) [0..<r])) \<le> r * c"
proof -
  have "length (concat (map (\<lambda>row. filter P (map (f row) [0..<c])) [k..<r])) \<le> (r - k) * c" for k
  proof (induction "r - k" arbitrary: k)
    case 0
    then show ?case by simp
  next
    case (Suc d)
    then have lt: "k < r" and d: "d = r - Suc k" by simp_all
    have "length (filter P (map (f k) [0..<c])) \<le> c"
      using length_filter_le [of P "map (f k) [0..<c]"] by simp
    moreover have "r - k = Suc (r - Suc k)" using lt by simp
    ultimately show ?case using Suc.hyps(1) [OF d] lt by (simp add: upt_conv_Cons)
  qed
  from this [of 0] show ?thesis by simp
qed

lemma calculatedDistances64_bound:
  assumes k1: "1 \<le> k" and k: "k \<le> 2 ^ 50"
  shows "\<exists>ds. calculatedDistances64 dims (Fin (real k)) = Some ds
           \<and> length ds \<le> shape_rows k * shape_cols k"
proof -
  let ?c = "shape_cols k" and ?r = "shape_rows k"
  have c25: "?c \<le> 2 ^ 25" using k by (rule shape_cols_le)
  have "?r \<le> ?c" using k1 by (rule shape_rows_le_cols)
  then have r25: "?r \<le> 2 ^ 25" using c25 by simp
  have big: "(2::nat) ^ 25 \<le> 2 ^ 53" by simp
  have c53: "?c \<le> 2 ^ 53" and r53: "?r \<le> 2 ^ 53" using c25 r25 big by linarith+
  have zero: "Fin 0 = Fin (real 0)" by simp
  show ?thesis
    unfolding calculatedDistances64_def Let_def numCols64_nat [OF k1 k] numRows64_nat [OF k1 k]
    apply (subst zero)
    apply (subst distances_rows64_fin [OF _ r53 c53])
     apply simp
    apply (simp only: append_Nil option.inject simp_thms ex_simps length_concat_filter)
    done
qed

lemma fl_numeral: "numeral n \<le> (2 ^ 53 :: int) \<Longrightarrow> fl (numeral n) = Fin (numeral n)"
  using fl_int [of "numeral n"] by simp

lemma numCols64_one: "numCols64 (Fin 1) = Fin 1"
  using numCols64_nat [of 1] shape_cols_eqI [of 1 1] by simp

lemma numRows64_one: "numRows64 (Fin 1) = Fin 1"
  using numRows64_nat [of 1] shape_cols_eqI [of 1 1] by (simp add: shape_rows_def)

lemma fl_neg_numeral: "numeral n \<le> (2 ^ 53 :: int) \<Longrightarrow> fl (- numeral n) = Fin (- numeral n)"
  using fl_int [of "- numeral n"] by simp

lemma fl_one: "fl 1 = Fin 1"
  using fl_int [of 1] by simp

section \<open>The claims\<close>




text \<open>
  C2, as the code has it. The check of \<open>handleCalculate\<close> looks at the two parsed fields
  only: when the lumens or the luxes value is \<open>NaN\<close> (an empty or non-numeric field),
  zero or negative, the error alert is shown and the handler returns the state otherwise
  untouched, whatever the dimensions are, so neither the count nor the placement is
  computed. The width and the height are not checked, and neither is \<open>+Infinity\<close>.
\<close>

theorem handleCalculate_rejects_invalid_fields:
  assumes "isNaN (parseFloat (lumens st)) \<or> isNaN (parseFloat (luxes st))
             \<or> num_le (parseFloat (lumens st)) (Fin 0) \<or> num_le (parseFloat (luxes st)) (Fin 0)"
  shows "handleCalculate parseFloat dims st = Some (st\<lparr>alerts := alerts st @ [error_alert]\<rparr>)"
  using assms by (intro handleCalculate_invalid) (simp only: invalid_values_def)

theorem handleCalculate_rejects_invalid_fields_witness:
  "num_le (example_parseFloat (luxes (example_state ''50'' ''-1''))) (Fin 0)
   \<and> handleCalculate example_parseFloat \<lparr>width = Fin 5, height = Fin 5\<rparr>
         (example_state ''50'' ''-1'') =
       Some \<lparr>lumens = ''50'', luxes = ''-1'', focusCount = None, distances = None,
             alerts = [error_alert]\<rparr>"
proof -
  have neg: "num_le (example_parseFloat (luxes (example_state ''50'' ''-1''))) (Fin 0)"
    by (simp add: example_parseFloat_def example_state_def)
  then show ?thesis
    using handleCalculate_rejects_invalid_fields
      [of example_parseFloat "example_state ''50'' ''-1''" "\<lparr>width = Fin 5, height = Fin 5\<rparr>"]
    by (simp add: example_state_def)
qed

text \<open>
  The claim as written fails for a zero width: with width 0, height 5, 100 lux and 50
  lumens no alert is shown, and the handler stores a count of 0 and an empty list of
  positions.
\<close>

theorem handleCalculate_zero_width_counterexample:
  "handleCalculate example_parseFloat \<lparr>width = Fin 0, height = Fin 5\<rparr>
     (example_state ''50'' ''100'') =
   Some \<lparr>lumens = ''50'', luxes = ''100'', focusCount = Some (Fin 0), distances = Some [],
         alerts = []\<rparr>"
proof -
  have count: "numFoci \<lparr>width = Fin 0, height = Fin 5\<rparr> (Fin 50) (Fin 100) = Fin 0"
    by (simp add: numFoci_def area_def)
  have rows: "numRows (Fin 0) = NaN" by (simp add: numRows_def numCols_def)
  have "calculatedDistances \<lparr>width = Fin 0, height = Fin 5\<rparr> (Fin 0) = Some []"
    by (simp add: calculatedDistances_def rows distances_rows_exit)
  then show ?thesis
    by (simp add: handleCalculate_def example_parseFloat_def example_state_def
          invalid_values_def count)
qed

text \<open>
  C3, as the code has it. For every input that passes the validation and yields a count
  \<open>k\<close> between 1 and \<open>2^50\<close>, the handler returns and stores \<open>k\<close> and a list of
  positions with at most \<open>numRows * numCols\<close> elements, the number of cells of the grid.
  That number can exceed \<open>k\<close>, so the length need not equal the count.
\<close>

theorem handleCalculate64_positions_within_grid:
  assumes "\<not> invalid_values (parseFloat (lumens st)) (parseFloat (luxes st))"
    and "numFoci64 dims (parseFloat (lumens st)) (parseFloat (luxes st)) = Fin (real k)"
    and "1 \<le> k" and "k \<le> 2 ^ 50"
  shows "\<exists>st' ds r c. handleCalculate64 parseFloat dims st = Some st'
           \<and> focusCount st' = Some (Fin (real k)) \<and> distances st' = Some ds
           \<and> numRows64 (Fin (real k)) = Fin (real r) \<and> numCols64 (Fin (real k)) = Fin (real c)
           \<and> length ds \<le> r * c"
proof -
  obtain ds where ds: "calculatedDistances64 dims (Fin (real k)) = Some ds"
      "length ds \<le> shape_rows k * shape_cols k"
    using calculatedDistances64_bound [OF assms(3,4)] by blast
  have "handleCalculate64 parseFloat dims st =
      Some (st\<lparr>focusCount := Some (Fin (real k)), distances := Some ds\<rparr>)"
    using assms(1) by (simp add: handleCalculate64_def assms(2) ds(1))
  then show ?thesis
    using ds(2) numRows64_nat [OF assms(3,4)] numCols64_nat [OF assms(3,4)] by simp
qed

theorem handleCalculate64_positions_within_grid_witness:
  "\<not> invalid_values (example_parseFloat (lumens (example_state ''900'' ''300'')))
        (example_parseFloat (luxes (example_state ''900'' ''300'')))
   \<and> (1::nat) \<le> 4 \<and> (4::nat) \<le> 2 ^ 50
   \<and> (\<exists>st' ds r c.
         handleCalculate64 example_parseFloat \<lparr>width = Fin 4, height = Fin 3\<rparr>
           (example_state ''900'' ''300'') = Some st'
       \<and> focusCount st' = Some (Fin 4) \<and> distances st' = Some ds
       \<and> numRows64 (Fin 4) = Fin (real r) \<and> numCols64 (Fin 4) = Fin (real c)
       \<and> length ds \<le> r * c)"
proof -
  have valid: "\<not> invalid_values (example_parseFloat (lumens (example_state ''900'' ''300'')))
        (example_parseFloat (luxes (example_state ''900'' ''300'')))"
    by (simp add: invalid_values_def example_parseFloat_def example_state_def)
  have f: "fl 12 = Fin 12" "fl 3600 = Fin 3600" "fl 4 = Fin 4"
    by (rule fl_numeral, simp)+
  have count: "numFoci64 \<lparr>width = Fin 4, height = Fin 3\<rparr>
      (example_parseFloat (lumens (example_state ''900'' ''300'')))
      (example_parseFloat (luxes (example_state ''900'' ''300''))) = Fin (real 4)"
    by (simp add: numFoci64_def area64_def mul64_def div64_def f example_parseFloat_def
          example_state_def)
  show ?thesis
    using valid handleCalculate64_positions_within_grid [OF valid count] by simp
qed

text \<open>
  The claim as written fails at width 5, height 5, 200 lux and 1000 lumens: the count is
  5 and the list has 6 positions, the whole grid of 2 rows and 3 columns.
\<close>

theorem handleCalculate64_six_positions_counterexample:
  "map_option focusCount
     (handleCalculate64 example_parseFloat \<lparr>width = Fin 5, height = Fin 5\<rparr>
        (example_state ''1000'' ''200'')) = Some (Some (Fin 5))
   \<and> map_option (map_option length \<circ> distances)
     (handleCalculate64 example_parseFloat \<lparr>width = Fin 5, height = Fin 5\<rparr>
        (example_state ''1000'' ''200'')) = Some (Some 6)"
proof -
  have f: "fl 25 = Fin 25" "fl 5000 = Fin 5000" "fl 5 = Fin 5"
    by (rule fl_numeral, simp)+
  have count: "numFoci64 \<lparr>width = Fin 5, height = Fin 5\<rparr> (Fin 1000) (Fin 200) = Fin 5"
    by (simp add: numFoci64_def area64_def mul64_def div64_def f)
  have c: "shape_cols 5 = 3" by (rule shape_cols_eqI) simp_all
  have r: "shape_rows 5 = 2" by (simp add: shape_rows_def c)
  have lo: "pow2 (- 400) \<le> 5" by (simp add: pow2_neg_numeral)
  have hi: "5 \<le> pow2 400" by (simp add: pow2_numeral)
  obtain ds where ds: "calculatedDistances64 \<lparr>width = Fin 5, height = Fin 5\<rparr> (Fin (real 5)) = Some ds"
      "length ds = shape_rows 5 * shape_cols 5"
    using calculatedDistances64_full [OF f(3) lo hi f(3) lo hi, of 5] by auto
  have "handleCalculate64 example_parseFloat \<lparr>width = Fin 5, height = Fin 5\<rparr>
      (example_state ''1000'' ''200'') =
      Some ((example_state ''1000'' ''200'')\<lparr>focusCount := Some (Fin 5), distances := Some ds\<rparr>)"
    using ds(1)
    by (simp add: handleCalculate64_def example_parseFloat_def example_state_def
          invalid_values_def count)
  then show ?thesis using ds(2) by (simp add: c r)
qed



text \<open>
  C5, as the code has it. For every integer count \<open>n\<close> between 1 and \<open>2^50\<close> the grid
  shape computed in double arithmetic by \<open>numCols = Math.ceil(Math.sqrt(n))\<close> and
  \<open>numRows = Math.ceil(n / numCols)\<close> consists of two natural numbers with
  \<open>numCols * numRows \<ge> n\<close> and \<open>(numCols - 1) * numRows < n\<close>: no column is redundant.
\<close>

theorem grid_shape64_no_redundant_column:
  assumes "1 \<le> n" and "n \<le> 2 ^ 50"
  shows "\<exists>c r. numCols64 (Fin (real n)) = Fin (real c) \<and> numRows64 (Fin (real n)) = Fin (real r)
           \<and> n \<le> c * r \<and> (int c - 1) * int r < int n"
proof -
  have "int (shape_cols n) - 1 = int (shape_cols n - 1)"
    using shape_cols_pos [OF assms(1)] by simp
  then have "(int (shape_cols n) - 1) * int (shape_rows n) < int n"
    using shape_no_redundant_column [OF assms(1)]
    by (simp only: of_nat_mult [symmetric] of_nat_less_iff)
  moreover have "n \<le> shape_cols n * shape_rows n"
    using shape_rows_upper [OF assms(1)] by (simp only: mult.commute)
  ultimately show ?thesis
    using numCols64_nat [OF assms] numRows64_nat [OF assms] by blast
qed

theorem grid_shape64_no_redundant_column_witness:
  "(1::nat) \<le> 5 \<and> (5::nat) \<le> 2 ^ 50
   \<and> (\<exists>c r. numCols64 (Fin 5) = Fin (real c) \<and> numRows64 (Fin 5) = Fin (real r)
          \<and> 5 \<le> c * r \<and> (int c - 1) * int r < 5)"
  using grid_shape64_no_redundant_column [of 5] by simp

text \<open>
  The claim as written fails for a large count: at \<open>n = 40532397652967432\<close> the quotient
  \<open>n / numCols\<close> rounds down to an integer, and the grid of 201326595 columns and 201326594
  rows has fewer than \<open>n\<close> cells.
\<close>

theorem grid_shape64_large_count_counterexample:
  "numCols64 (Fin 40532397652967432) = Fin 201326595
   \<and> numRows64 (Fin 40532397652967432) = Fin 201326594
   \<and> (201326595::int) * 201326594 < 40532397652967432"
proof -
  have flo: "fl (805306377 / 4) = Fin (805306377 / 4)"
    by (rule fl_exact [of _ 805306377 "- 2"]) (simp_all add: pow2_eval)
  have fhi: "fl 201326595 = Fin 201326595" by (rule fl_numeral) simp
  have "(805306377 / 4 :: real)\<^sup>2 \<le> 40532397652967432" by (simp add: power2_eq_square)
  then have lo: "805306377 / 4 \<le> sqrt 40532397652967432" by (rule real_le_rsqrt)
  have hi: "sqrt 40532397652967432 \<le> 201326595" by (rule real_le_lsqrt) simp_all
  obtain y where y: "fl (sqrt 40532397652967432) = Fin y" "805306377 / 4 \<le> y" "y \<le> 201326595"
    using fl_between [OF lo hi flo fhi] by blast
  have "\<lceil>y\<rceil> = 201326595" using y(2,3) by (intro ceiling_unique) simp_all
  then have cols: "numCols64 (Fin 40532397652967432) = Fin 201326595"
    by (simp add: numCols64_def sqrt64_def y(1))
  have q: "round_even (40532397652967432 / 201326595 / pow2 (27 - 52)) = 6755399508164608"
    by (rule round_even_down) (simp_all add: pow2_eval)
  have "fl (40532397652967432 / 201326595) = Fin (of_int 6755399508164608 * pow2 (27 - 52))"
    by (rule fl_normal [OF _ _ _ q]) (simp_all add: pow2_eval)
  then have "fl (40532397652967432 / 201326595) = Fin 201326594" by (simp add: pow2_eval)
  then have "numRows64 (Fin 40532397652967432) = Fin 201326594"
    by (simp add: numRows64_def div64_def cols)
  then show ?thesis using cols by simp
qed







text \<open>
  C9. For a positive width and height and an integer count \<open>n \<ge> 1\<close>, in exact arithmetic
  every cell centre \<open>((col + 1/2) * width / numCols, (row + 1/2) * height / numRows)\<close>
  lies strictly below the width and the height, so the inclusion test accepts every cell:
  the positions are the whole grid, \<open>numRows * numCols\<close> of them, which is at least \<open>n\<close>.
\<close>

theorem calculatedDistances_whole_grid:
  assumes w: "0 < w" and h: "0 < h" and n: "1 \<le> n"
  shows "\<exists>ds. calculatedDistances \<lparr>width = Fin w, height = Fin h\<rparr> (Fin (real n)) = Some ds
           \<and> ds = concat (map (\<lambda>row. map (\<lambda>col.
                    \<lparr>pos_x = Fin ((real col + 1 / 2) * w / real (shape_cols n)),
                     pos_y = Fin ((real row + 1 / 2) * h / real (shape_rows n))\<rparr>)
                  [0..<shape_cols n]) [0..<shape_rows n])
           \<and> (\<forall>col < shape_cols n. (real col + 1 / 2) * w / real (shape_cols n) < w)
           \<and> (\<forall>row < shape_rows n. (real row + 1 / 2) * h / real (shape_rows n) < h)
           \<and> length ds = shape_rows n * shape_cols n
           \<and> n \<le> length ds"
proof -
  have centre: "d / real m / 2 + real k * (d / real m) = (real k + 1 / 2) * d / real m"
    for d :: real and m k :: nat
    by (cases "m = 0") (simp_all add: field_simps)
  have cells: "spec_cell w h (shape_cols n) (shape_rows n) row col =
      \<lparr>pos_x = Fin ((real col + 1 / 2) * w / real (shape_cols n)),
       pos_y = Fin ((real row + 1 / 2) * h / real (shape_rows n))\<rparr>" for row col
    by (simp only: spec_cell_def Let_def centre)
  have x: "(real col + 1 / 2) * w / real (shape_cols n) < w" if "col < shape_cols n" for col
    using center_bounds(2) [OF w that] by (simp only: centre)
  have y: "(real row + 1 / 2) * h / real (shape_rows n) < h" if "row < shape_rows n" for row
    using center_bounds(2) [OF h that] by (simp only: centre)
  have len: "length (spec_positions w h n) = shape_rows n * shape_cols n"
    using w h by (rule length_spec_positions)
  have "n \<le> length (spec_positions w h n)"
    using shape_rows_upper [OF n] by (simp only: len)
  then show ?thesis
    using calculatedDistances_spec [OF assms] spec_positions_all [OF w h, of n] len x y
    by (simp add: cells)
qed

theorem calculatedDistances_whole_grid_witness:
  "(0::real) < 5 \<and> (0::real) < 5 \<and> (1::nat) \<le> 5
   \<and> (\<exists>ds. calculatedDistances \<lparr>width = Fin 5, height = Fin 5\<rparr> (Fin 5) = Some ds
         \<and> length ds = 6)"
proof -
  have c: "shape_cols 5 = 3" by (rule shape_cols_eqI) simp_all
  have r: "shape_rows 5 = 2" by (simp add: shape_rows_def c)
  show ?thesis
    using calculatedDistances_whole_grid [of 5 5 5]
    by (auto simp: c r)
qed

text \<open>
  C10, as the code has it. For an integer count \<open>n\<close> between 1 and \<open>2^50\<close>, a width and a
  height that are doubles between \<open>2^-400\<close> and \<open>2^400\<close>, and a window width that is a
  double between 40 and \<open>2^100\<close>, \<open>renderFocusGrid\<close> returns a container with one dot for
  each position that the loops of \<open>handleCalculate\<close> produce for the same count: both lists
  hold the whole grid of \<open>numRows * numCols\<close> cells.
\<close>

theorem renderFocusGrid64_matches_positions:
  assumes "is_double W" and "1 / 2 ^ 400 \<le> W" and "W \<le> 2 ^ 400"
    and "is_double H" and "1 / 2 ^ 400 \<le> H" and "H \<le> 2 ^ 400"
    and "1 \<le> n" and "n \<le> 2 ^ 50"
    and "is_double sw" and "40 \<le> sw" and "sw \<le> 2 ^ 100"
  shows "\<exists>cw ch dots ds.
           renderFocusGrid64 (Fin sw) \<lparr>width = Fin W, height = Fin H\<rparr> (Fin (real n)) =
             Some (GridContainer cw ch dots)
         \<and> calculatedDistances64 \<lparr>width = Fin W, height = Fin H\<rparr> (Fin (real n)) = Some ds
         \<and> length dots = length ds
         \<and> length ds = shape_rows n * shape_cols n"
proof -
  have W: "fl W = Fin W" and H: "fl H = Fin H" and sw: "fl sw = Fin sw"
    using assms(1,4,9) by (simp_all only: is_double_def)
  have Wlo: "pow2 (- 400) \<le> W" and Whi: "W \<le> pow2 400"
    and Hlo: "pow2 (- 400) \<le> H" and Hhi: "H \<le> pow2 400" and swhi: "sw \<le> pow2 100"
    using assms(2,3,5,6,11) by (simp_all only: pow2_numeral pow2_neg_numeral)
  obtain ds where ds: "calculatedDistances64 \<lparr>width = Fin W, height = Fin H\<rparr> (Fin (real n)) = Some ds"
      "length ds = shape_rows n * shape_cols n"
    using calculatedDistances64_full [OF W Wlo Whi H Hlo Hhi assms(7,8)] by blast
  obtain cw ch dots where dots:
      "renderFocusGrid64 (Fin sw) \<lparr>width = Fin W, height = Fin H\<rparr> (Fin (real n)) =
         Some (GridContainer cw ch dots)"
      "length dots = shape_rows n * shape_cols n"
    using renderFocusGrid64_full [OF W Wlo Whi H Hlo Hhi assms(7,8) sw assms(10) swhi]
    by blast
  show ?thesis using ds dots by simp
qed

theorem renderFocusGrid64_matches_positions_witness:
  "is_double 4 \<and> (1::real) / 2 ^ 400 \<le> 4 \<and> (4::real) \<le> 2 ^ 400
   \<and> is_double 3 \<and> (1::real) / 2 ^ 400 \<le> 3 \<and> (3::real) \<le> 2 ^ 400
   \<and> (1::nat) \<le> 4 \<and> (4::nat) \<le> 2 ^ 50
   \<and> is_double 360 \<and> (40::real) \<le> 360 \<and> (360::real) \<le> 2 ^ 100
   \<and> (\<exists>cw ch dots ds.
         renderFocusGrid64 (Fin 360) \<lparr>width = Fin 4, height = Fin 3\<rparr> (Fin 4) =
           Some (GridContainer cw ch dots)
       \<and> calculatedDistances64 \<lparr>width = Fin 4, height = Fin 3\<rparr> (Fin 4) = Some ds
       \<and> length dots = length ds)"
proof -
  have f: "fl 4 = Fin 4" "fl 3 = Fin 3" "fl 360 = Fin 360"
    by (rule fl_numeral, simp)+
  show ?thesis
    using renderFocusGrid64_matches_positions [of 4 3 4 360] f by (auto simp: is_double_def)
qed

text \<open>
  The claim as written fails in a window narrower than the margins, and where the aspect
  ratio underflows. At a window width of 30, with a unit square and one light, the
  container has width \<open>-10\<close> and no dot is rendered, while \<open>handleCalculate\<close> produces one
  position. At a window width of 360, with width \<open>2^-600\<close>, height \<open>2^600\<close> and one light,
  the aspect ratio rounds to 0, the container height is \<open>Infinity\<close> and no dot is rendered,
  while \<open>handleCalculate\<close> again produces one position.
\<close>

theorem renderFocusGrid64_no_dots_counterexample:
  "renderFocusGrid64 (Fin 30) \<lparr>width = Fin 1, height = Fin 1\<rparr> (Fin 1) =
     Some (GridContainer (Fin (- 10)) (Fin (- 10)) [])
   \<and> calculatedDistances64 \<lparr>width = Fin 1, height = Fin 1\<rparr> (Fin 1) =
     Some [\<lparr>pos_x = Fin (1 / 2), pos_y = Fin (1 / 2)\<rparr>]
   \<and> renderFocusGrid64 (Fin 360) \<lparr>width = Fin (1 / 2 ^ 600), height = Fin (2 ^ 600)\<rparr> (Fin 1) =
     Some (GridContainer (Fin 320) PosInf [])
   \<and> calculatedDistances64 \<lparr>width = Fin (1 / 2 ^ 600), height = Fin (2 ^ 600)\<rparr> (Fin 1) =
     Some [\<lparr>pos_x = Fin (1 / 2 ^ 601), pos_y = Fin (2 ^ 599)\<rparr>]"
proof -
  have ints: "fl (- 10) = Fin (- 10)" "fl (- 5) = Fin (- 5)" "fl 320 = Fin 320" "fl 160 = Fin 160"
    by (rule fl_neg_numeral, simp)+ (rule fl_numeral, simp)+
  have h: "pow2 (- 1) = 1 / 2" using pow2_neg [of 1] by simp
  have half: "fl (1 / 2) = Fin (1 / 2)" using fl_pow2 [of "- 1"] unfolding h by simp
  have pows: "fl (1 / 2 ^ 600) = Fin (1 / 2 ^ 600)" "fl (1 / 2 ^ 601) = Fin (1 / 2 ^ 601)"
      "fl (2 ^ 600) = Fin (2 ^ 600)" "fl (2 ^ 599) = Fin (2 ^ 599)"
    using fl_pow2 [of "- 600"] fl_pow2 [of "- 601"] fl_pow2 [of 600] fl_pow2 [of 599]
    by (simp_all only: pow2_numeral pow2_neg_numeral)
  have "round_even (1 / 2 ^ 600 / 2 ^ 600 / pow2 (- 1074)) = 0"
    by (rule round_even_down) (simp_all add: pow2_neg_numeral)
  then have "fl (1 / 2 ^ 600 / 2 ^ 600) = Fin (of_int 0 * pow2 (- 1074))"
    by (intro fl_subnormal) (simp_all add: pow2_neg_numeral)
  then have under: "fl (1 / 2 ^ 600 / 2 ^ 600) = Fin 0" by simp
  have one: "[0..<1] = [0]" by (simp add: upt_conv_Cons)
  have narrow_loop: "grid_rows64 (Fin (- 10)) (Fin (- 10)) (Fin 20) (Fin 1) (Fin 1) (Fin (- 10))
      (Fin (- 10)) (Fin (- 5)) (Fin (- 5)) (Fin 0) [] = Some []"
    using grid_rows64_fin [of 0 1 1 "Fin (- 10)" "Fin (- 10)" "Fin 20" "Fin (- 10)" "Fin (- 10)"
        "Fin (- 5)" "Fin (- 5)" "[]"]
    by (simp add: one dot_accepted_def dot_cell64_def add64_def mul64_def fl_zero ints)
  have narrow: "renderFocusGrid64 (Fin 30) \<lparr>width = Fin 1, height = Fin 1\<rparr> (Fin 1) =
      Some (GridContainer (Fin (- 10)) (Fin (- 10)) [])"
    by (simp add: renderFocusGrid64_def Let_def numCols64_one numRows64_one sub64_def num_sub_def
          div64_def fl_one ints narrow_loop)
  have unit_loop: "distances_rows64 \<lparr>width = Fin 1, height = Fin 1\<rparr> (Fin 1) (Fin 1) (Fin 1) (Fin 1)
      (Fin (1 / 2)) (Fin (1 / 2)) (Fin 0) [] = Some [\<lparr>pos_x = Fin (1 / 2), pos_y = Fin (1 / 2)\<rparr>]"
    using distances_rows64_fin [of 0 1 1 "\<lparr>width = Fin 1, height = Fin 1\<rparr>" "Fin 1" "Fin 1"
        "Fin (1 / 2)" "Fin (1 / 2)" "[]"]
    by (simp add: one accepted_def cell64_def add64_def mul64_def fl_zero half)
  have unit: "calculatedDistances64 \<lparr>width = Fin 1, height = Fin 1\<rparr> (Fin 1) =
      Some [\<lparr>pos_x = Fin (1 / 2), pos_y = Fin (1 / 2)\<rparr>]"
    by (simp add: calculatedDistances64_def Let_def numCols64_one numRows64_one div64_def
          fl_one half unit_loop)
  have wide_loop: "grid_rows64 (Fin 320) PosInf (Fin 20) (Fin 1) (Fin 1) (Fin 320) PosInf
      (Fin 160) PosInf (Fin 0) [] = Some []"
    using grid_rows64_fin [of 0 1 1 "Fin 320" PosInf "Fin 20" "Fin 320" PosInf "Fin 160" PosInf "[]"]
    by (simp add: one dot_accepted_def dot_cell64_def add64_def mul64_def fl_zero ints)
  have wide: "renderFocusGrid64 (Fin 360) \<lparr>width = Fin (1 / 2 ^ 600), height = Fin (2 ^ 600)\<rparr>
      (Fin 1) = Some (GridContainer (Fin 320) PosInf [])"
    using under wide_loop ints
    by (simp add: renderFocusGrid64_def Let_def numCols64_one numRows64_one sub64_def num_sub_def
          div64_def)
  have thin_loop: "distances_rows64 \<lparr>width = Fin (1 / 2 ^ 600), height = Fin (2 ^ 600)\<rparr> (Fin 1)
      (Fin 1) (Fin (1 / 2 ^ 600)) (Fin (2 ^ 600)) (Fin (1 / 2 ^ 601)) (Fin (2 ^ 599)) (Fin 0) [] =
      Some [\<lparr>pos_x = Fin (1 / 2 ^ 601), pos_y = Fin (2 ^ 599)\<rparr>]"
    using distances_rows64_fin [of 0 1 1 "\<lparr>width = Fin (1 / 2 ^ 600), height = Fin (2 ^ 600)\<rparr>"
        "Fin (1 / 2 ^ 600)" "Fin (2 ^ 600)" "Fin (1 / 2 ^ 601)" "Fin (2 ^ 599)" "[]"] pows
    by (simp add: one accepted_def cell64_def add64_def mul64_def fl_zero)
  have thin: "calculatedDistances64 \<lparr>width = Fin (1 / 2 ^ 600), height = Fin (2 ^ 600)\<rparr> (Fin 1) =
      Some [\<lparr>pos_x = Fin (1 / 2 ^ 601), pos_y = Fin (2 ^ 599)\<rparr>]"
    using pows thin_loop
    by (simp add: calculatedDistances64_def Let_def numCols64_one numRows64_one div64_def)
  show ?thesis using narrow unit wide thin by simp
qed

end
